theory Spec2Isabelle
  imports Main "HOL-Library.Word"
begin

section \<open>The pipeline of precode.go as a transition system\<close>

text \<open>
  The program is one generator goroutine, \<open>NumOut\<close> workers, \<open>NumOut\<close> collectors, one
  closer, one sink and the main goroutine. Each goroutine is a program counter; one
  scheduler event runs one atomic action of one goroutine. An event whose goroutine is
  blocked (or has returned) yields \<open>None\<close>. A run is a list of events.

  Go's \<open>int64\<close> and \<open>atomic.Int64\<close> are 64-bit words: \<open>+\<close> wraps around.
\<close>

type_synonym int64 = "64 word"

subsection \<open>Program counters\<close>

text \<open>
  Generator (lines 18-31): \<open>GSelect\<close> is the \<open>select\<close> of line 22, \<open>GSend\<close> the send of
  line 26 waiting for a receiver, \<open>GFn1\<close> and \<open>GFn2\<close> the two atomic additions of the
  callback of lines 55-56 (called at line 27), \<open>GInc\<close> the increment of line 28,
  \<open>GRet\<close> the \<open>return\<close> of line 24 with the deferred \<open>close(ch)\<close> still to run.
\<close>

datatype gen_pc = GSelect | GSend | GFn1 | GFn2 | GInc | GRet | GDone

text \<open>
  Worker (lines 34-41): \<open>WRecv\<close> is the receive of the \<open>range\<close> loop, \<open>WSend v\<close> the send
  of line 38 waiting for a receiver, \<open>WSleep\<close> line 39, \<open>WRet\<close> the loop left with the
  deferred \<open>close(out)\<close> still to run.
\<close>

datatype wrk_pc = WRecv | WSend int64 | WSleep | WRet | WDone

text \<open>
  Collector (lines 80-88): \<open>CRecv\<close> the receive of line 82, \<open>CLock v\<close> line 83,
  \<open>CInc v\<close> line 84, \<open>CUnlock v\<close> line 85, \<open>CSend v\<close> line 86, \<open>CRet\<close> the loop left with
  the deferred \<open>wg.Done()\<close> still to run.
\<close>

datatype col_pc = CRecv | CLock int64 | CInc int64 | CUnlock int64 | CSend int64 | CRet | CDone

text \<open>Closer (lines 91-96): \<open>KWait\<close> is \<open>wg.Wait()\<close>, \<open>KClose\<close> is \<open>close(chOut)\<close>.\<close>

datatype closer_pc = KWait | KClose | KDone

text \<open>
  Sink (lines 105-111): \<open>SRecv\<close> the receive of line 107, \<open>SCount v\<close> line 108,
  \<open>SSum v\<close> line 109, \<open>SRet\<close> the loop left with the deferred \<open>wg1.Done()\<close> still to run.
\<close>

datatype sink_pc = SRecv | SCount int64 | SSum int64 | SRet | SDone

text \<open>Main: \<open>MWait\<close> is \<open>wg1.Wait()\<close> of line 112; \<open>MExit c\<close> is the process ended with status \<open>c\<close>.\<close>

datatype main_pc = MWait | MExit nat

subsection \<open>Output\<close>

text \<open>
  The three string literals of lines 114-116 and the three format strings of lines 120,
  123 and 129 are Cyrillic text; they are named here, not spelled. An output line is the
  operand list of one \<open>fmt.Println\<close>; a diagnostic is the format of one \<open>log.Fatalf\<close> with
  the values passed for its \<open>%d\<close> verbs.
\<close>

datatype label = CountLabel | SumLabel | LanesLabel

datatype arg = Str label | I64 int64 | Slice "int64 list"

datatype fmt = SumFmt | CountFmt | LanesFmt

subsection \<open>History of the generator and of the workers\<close>

text \<open>
  History variables record what the generator and each worker did, in order, and how
  often \<open>close(chOut)\<close> was executed. No transition reads them; the claims about the
  order and the number of actions are stated on them.
\<close>

datatype gen_act = Sent int64 | Called int64 | ClosedIn

datatype wrk_act = Got int64 | Put int64 | Slept | ClosedOut

subsection \<open>State\<close>

record state =
  NumOut :: nat
  ctxDone :: bool
  gen :: gen_pc
  n :: int64
  chIn_closed :: bool
  inputSum :: int64
  inputCount :: int64
  workers :: "wrk_pc list"
  outs_closed :: "bool list"
  collectors :: "col_pc list"
  mu :: bool
  amounts :: "int64 list"
  wg :: nat
  chOut :: "int64 list"
  chOut_closed :: bool
  closer :: closer_pc
  count :: int64
  sum_v :: int64
  sink :: sink_pc
  wg1 :: nat
  mainpc :: main_pc
  stdout :: "arg list list"
  stderr :: "(fmt \<times> int64 list) list"
  panicked :: bool
  gen_log :: "gen_act list"
  wrk_log :: "wrk_act list list"
  chOut_closes :: nat

text \<open>
  The state when \<open>main\<close> reaches \<open>wg1.Wait()\<close> (line 112) with every goroutine launched
  and none scheduled yet: the channels are empty and open, the counters zero, \<open>wg\<close> has
  had its \<open>NumOut\<close> calls of \<open>Add(1)\<close> and \<open>wg1\<close> its one. A goroutine that ran while
  \<open>main\<close> was still launching the others is a run from this state in which the others
  are scheduled later.
\<close>

definition init :: "nat \<Rightarrow> state" where
  "init N = \<lparr> NumOut = N, ctxDone = False, gen = GSelect, n = 1, chIn_closed = False,
     inputSum = 0, inputCount = 0, workers = replicate N WRecv,
     outs_closed = replicate N False, collectors = replicate N CRecv, mu = False,
     amounts = replicate N 0, wg = N, chOut = [], chOut_closed = False, closer = KWait,
     count = 0, sum_v = 0, sink = SRecv, wg1 = 1, mainpc = MWait, stdout = [],
     stderr = [], panicked = False, gen_log = [], wrk_log = replicate N [],
     chOut_closes = 0 \<rparr>"

subsection \<open>Generator\<close>

text \<open>
  One action of \<open>Generator\<close>. The unbuffered send of line 26 completes in the step of
  the worker that receives (see \<open>Worker_step\<close>); alone it only waits, and it panics on a
  closed channel. \<open>select\<close> takes \<open>ctx.Done()\<close> when it is ready and \<open>default\<close> otherwise.
\<close>

definition panic :: "state \<Rightarrow> state option" where
  "panic s = Some (s\<lparr>panicked := True\<rparr>)"

definition Generator_step :: "state \<Rightarrow> state option" where
  "Generator_step s =
     (case gen s of
        GSelect \<Rightarrow> if ctxDone s then Some (s\<lparr>gen := GRet\<rparr>) else Some (s\<lparr>gen := GSend\<rparr>)
      | GSend \<Rightarrow> if chIn_closed s then panic s else None
      | GFn1 \<Rightarrow> Some (s\<lparr>inputCount := inputCount s + 1, gen := GFn2,
                         gen_log := gen_log s @ [Called (n s)]\<rparr>)
      | GFn2 \<Rightarrow> Some (s\<lparr>inputSum := inputSum s + n s, gen := GInc\<rparr>)
      | GInc \<Rightarrow> Some (s\<lparr>n := n s + 1, gen := GSelect\<rparr>)
      | GRet \<Rightarrow> if chIn_closed s then panic s
                else Some (s\<lparr>chIn_closed := True, gen := GDone,
                             gen_log := gen_log s @ [ClosedIn]\<rparr>)
      | GDone \<Rightarrow> None)"

subsection \<open>Worker\<close>

definition log_at :: "nat \<Rightarrow> wrk_act \<Rightarrow> wrk_act list list \<Rightarrow> wrk_act list list" where
  "log_at i a ls = ls[i := ls ! i @ [a]]"

text \<open>
  One action of worker \<open>i\<close>. Its receive from \<open>chIn\<close> ends the loop on the closed
  channel, and otherwise takes the value the generator is sending and completes that send.
  The send of line 38 completes in the step of collector \<open>i\<close>.
\<close>

definition Worker_step :: "nat \<Rightarrow> state \<Rightarrow> state option" where
  "Worker_step i s =
     (if length (workers s) \<le> i then None else
      case workers s ! i of
        WRecv \<Rightarrow>
          if chIn_closed s then Some (s\<lparr>workers := (workers s)[i := WRet]\<rparr>)
          else if gen s = GSend
          then Some (s\<lparr>workers := (workers s)[i := WSend (n s)], gen := GFn1,
                       gen_log := gen_log s @ [Sent (n s)],
                       wrk_log := log_at i (Got (n s)) (wrk_log s)\<rparr>)
          else None
      | WSend v \<Rightarrow> if outs_closed s ! i then panic s else None
      | WSleep \<Rightarrow> Some (s\<lparr>workers := (workers s)[i := WRecv],
                           wrk_log := log_at i Slept (wrk_log s)\<rparr>)
      | WRet \<Rightarrow> if outs_closed s ! i then panic s
                else Some (s\<lparr>outs_closed := (outs_closed s)[i := True],
                             workers := (workers s)[i := WDone],
                             wrk_log := log_at i ClosedOut (wrk_log s)\<rparr>)
      | WDone \<Rightarrow> None)"

subsection \<open>Collector\<close>

text \<open>
  One action of collector \<open>i\<close> (the goroutine of lines 80-88 for \<open>outs[i]\<close>). Its receive
  ends the loop on the closed lane, and otherwise takes the value worker \<open>i\<close> is sending and
  completes that send. \<open>chOut\<close> has a buffer of
  \<open>NumOut\<close> values: the send of line 86 waits while the buffer is full, and panics on a
  closed channel. \<open>wg.Done()\<close> panics on a counter that is already zero.
\<close>

definition Collector_step :: "nat \<Rightarrow> state \<Rightarrow> state option" where
  "Collector_step i s =
     (if length (collectors s) \<le> i \<or> length (workers s) \<le> i \<or> length (amounts s) \<le> i
      then None else
      case collectors s ! i of
        CRecv \<Rightarrow>
          if outs_closed s ! i then Some (s\<lparr>collectors := (collectors s)[i := CRet]\<rparr>)
          else (case workers s ! i of
                  WSend v \<Rightarrow>
                    Some (s\<lparr>collectors := (collectors s)[i := CLock v],
                            workers := (workers s)[i := WSleep],
                            wrk_log := log_at i (Put v) (wrk_log s)\<rparr>)
                | _ \<Rightarrow> None)
      | CLock v \<Rightarrow> if mu s then None
                   else Some (s\<lparr>mu := True, collectors := (collectors s)[i := CInc v]\<rparr>)
      | CInc v \<Rightarrow> Some (s\<lparr>amounts := (amounts s)[i := amounts s ! i + 1],
                           collectors := (collectors s)[i := CUnlock v]\<rparr>)
      | CUnlock v \<Rightarrow> Some (s\<lparr>mu := False, collectors := (collectors s)[i := CSend v]\<rparr>)
      | CSend v \<Rightarrow>
          if chOut_closed s then panic s
          else if length (chOut s) < NumOut s
          then Some (s\<lparr>chOut := chOut s @ [v], collectors := (collectors s)[i := CRecv]\<rparr>)
          else None
      | CRet \<Rightarrow> if wg s = 0 then panic s
                else Some (s\<lparr>wg := wg s - 1, collectors := (collectors s)[i := CDone]\<rparr>)
      | CDone \<Rightarrow> None)"

subsection \<open>Closer\<close>

definition Closer_step :: "state \<Rightarrow> state option" where
  "Closer_step s =
     (case closer s of
        KWait \<Rightarrow> if wg s = 0 then Some (s\<lparr>closer := KClose\<rparr>) else None
      | KClose \<Rightarrow> if chOut_closed s then panic s
                  else Some (s\<lparr>chOut_closed := True, closer := KDone,
                               chOut_closes := chOut_closes s + 1\<rparr>)
      | KDone \<Rightarrow> None)"

subsection \<open>Sink\<close>

text \<open>The receive of line 107 takes the oldest buffered value; the loop ends on the
  closed and empty channel.\<close>

definition Sink_step :: "state \<Rightarrow> state option" where
  "Sink_step s =
     (case sink s of
        SRecv \<Rightarrow>
          (case chOut s of
             v # vs \<Rightarrow> Some (s\<lparr>chOut := vs, sink := SCount v\<rparr>)
           | [] \<Rightarrow> if chOut_closed s then Some (s\<lparr>sink := SRet\<rparr>) else None)
      | SCount v \<Rightarrow> Some (s\<lparr>count := count s + 1, sink := SSum v\<rparr>)
      | SSum v \<Rightarrow> Some (s\<lparr>sum_v := sum_v s + v, sink := SRecv\<rparr>)
      | SRet \<Rightarrow> if wg1 s = 0 then panic s else Some (s\<lparr>wg1 := wg1 s - 1, sink := SDone\<rparr>)
      | SDone \<Rightarrow> None)"

subsection \<open>Report and verification (lines 114-131)\<close>

definition Println :: "arg list \<Rightarrow> state \<Rightarrow> state" where
  "Println as s = s\<lparr>stdout := stdout s @ [as]\<rparr>"

text \<open>\<open>log.Fatalf\<close> writes the message to standard error and ends the process with status 1.\<close>

definition Fatalf :: "fmt \<Rightarrow> int64 list \<Rightarrow> state \<Rightarrow> state" where
  "Fatalf f vs s = s\<lparr>stderr := stderr s @ [(f, vs)], mainpc := MExit 1\<rparr>"

text \<open>The loop of lines 125-127: \<open>inputCount.Add(-v)\<close> for each \<open>v\<close> of \<open>amounts\<close>.\<close>

definition subtract_amounts :: "state \<Rightarrow> state" where
  "subtract_amounts s = fold (\<lambda>v t. t\<lparr>inputCount := inputCount t + (- v)\<rparr>) (amounts s) s"

text \<open>
  Lines 114-131, from the first \<open>Println\<close> to the end of \<open>main\<close>. Returning from \<open>main\<close> runs
  the deferred \<open>cancel()\<close> and ends the process with status 0; \<open>log.Fatalf\<close> ends it at once.
  The whole report is one action of \<open>main\<close>: when \<open>wg1.Wait()\<close> returns, every other
  goroutine of a pool of at least one worker has terminated (proved below), so that no
  action can fall between two of its statements.
\<close>

definition report_and_verify :: "state \<Rightarrow> state" where
  "report_and_verify s0 =
     (let s1 = Println [Str CountLabel, I64 (inputCount s0), I64 (count s0)] s0;
          s2 = Println [Str SumLabel, I64 (inputSum s1), I64 (sum_v s1)] s1;
          s3 = Println [Str LanesLabel, Slice (amounts s2)] s2
      in if inputSum s3 \<noteq> sum_v s3 then Fatalf SumFmt [inputSum s3, sum_v s3] s3
         else if inputCount s3 \<noteq> count s3 then Fatalf CountFmt [inputCount s3, count s3] s3
         else let s4 = subtract_amounts s3
              in if inputCount s4 \<noteq> 0 then Fatalf LanesFmt [] s4
                 else s4\<lparr>ctxDone := True, mainpc := MExit 0\<rparr>)"

definition Main_step :: "state \<Rightarrow> state option" where
  "Main_step s =
     (case mainpc s of
        MWait \<Rightarrow> if wg1 s = 0 then Some (report_and_verify s) else None
      | MExit c \<Rightarrow> None)"

subsection \<open>Scheduler\<close>

text \<open>
  \<open>Deadline\<close> is the timer of \<open>context.WithTimeout\<close> firing: \<open>ctx.Done()\<close> becomes ready,
  at any moment of the run. Nothing runs after a panic or after the process has ended.
\<close>

datatype event = Deadline | Gen | Wrk nat | Col nat | Closer | Sink | MainG

definition step :: "event \<Rightarrow> state \<Rightarrow> state option" where
  "step e s =
     (if panicked s \<or> mainpc s \<noteq> MWait then None else
      case e of
        Deadline \<Rightarrow> Some (s\<lparr>ctxDone := True\<rparr>)
      | Gen \<Rightarrow> Generator_step s
      | Wrk i \<Rightarrow> Worker_step i s
      | Col i \<Rightarrow> Collector_step i s
      | Closer \<Rightarrow> Closer_step s
      | Sink \<Rightarrow> Sink_step s
      | MainG \<Rightarrow> Main_step s)"

fun exec :: "event list \<Rightarrow> state \<Rightarrow> state option" where
  "exec [] s = Some s"
| "exec (e # es) s = (case step e s of None \<Rightarrow> None | Some t \<Rightarrow> exec es t)"

section \<open>Invariants, specification functions and sample runs\<close>

subsection \<open>Safety invariant\<close>

text \<open>
  The slices and the per-lane histories have \<open>NumOut\<close> entries. \<open>chIn\<close> is closed exactly
  when the generator has returned; \<open>outs[i]\<close> exactly when worker \<open>i\<close> has returned; a
  worker leaves its loop only on the closed \<open>chIn\<close>, a collector only on the closed
  \<open>outs[i]\<close>. The counter of \<open>wg\<close> is the number of collectors that have not yet run
  \<open>wg.Done()\<close>; \<open>chOut\<close> is closed exactly when the closer has returned; the sink leaves
  its loop only on the closed and empty \<open>chOut\<close>; \<open>main\<close> proceeds only when the sink has
  run \<open>wg1.Done()\<close>. Nothing has panicked.
\<close>

definition wf :: "state \<Rightarrow> bool" where
  "wf s \<longleftrightarrow> length (workers s) = NumOut s \<and> length (outs_closed s) = NumOut s \<and>
     length (collectors s) = NumOut s \<and> length (amounts s) = NumOut s \<and>
     length (wrk_log s) = NumOut s"

fun wrk_exited :: "wrk_pc \<Rightarrow> bool" where
  "wrk_exited WRet = True"
| "wrk_exited WDone = True"
| "wrk_exited _ = False"

fun col_exited :: "col_pc \<Rightarrow> bool" where
  "col_exited CRet = True"
| "col_exited CDone = True"
| "col_exited _ = False"

fun sink_exited :: "sink_pc \<Rightarrow> bool" where
  "sink_exited SRet = True"
| "sink_exited SDone = True"
| "sink_exited _ = False"

fun live :: "col_pc \<Rightarrow> nat" where
  "live CDone = 0"
| "live _ = 1"

definition gen_ok :: "state \<Rightarrow> bool" where
  "gen_ok s \<longleftrightarrow> (chIn_closed s \<longleftrightarrow> gen s = GDone)"

definition lane_ok :: "state \<Rightarrow> nat \<Rightarrow> bool" where
  "lane_ok s i \<longleftrightarrow>
     (outs_closed s ! i \<longleftrightarrow> workers s ! i = WDone) \<and>
     (wrk_exited (workers s ! i) \<longrightarrow> chIn_closed s) \<and>
     (col_exited (collectors s ! i) \<longrightarrow> workers s ! i = WDone)"

definition tail_ok :: "state \<Rightarrow> bool" where
  "tail_ok s \<longleftrightarrow>
     wg s = sum_list (map live (collectors s)) \<and>
     (closer s \<noteq> KWait \<longrightarrow> wg s = 0) \<and>
     (chOut_closed s \<longleftrightarrow> closer s = KDone) \<and>
     (sink_exited (sink s) \<longrightarrow> chOut_closed s \<and> chOut s = []) \<and>
     wg1 s = (if sink s = SDone then 0 else 1) \<and>
     chOut_closes s = (if chOut_closed s then 1 else 0) \<and>
     (mainpc s \<noteq> MWait \<longrightarrow> sink s = SDone)"

definition safe :: "state \<Rightarrow> bool" where
  "safe s \<longleftrightarrow> wf s \<and> gen_ok s \<and> (\<forall>i < NumOut s. lane_ok s i) \<and> tail_ok s \<and> \<not> panicked s"

subsection \<open>Values in flight\<close>

text \<open>
  A value is in flight between the generator's send and the sink's additions. The
  functions below weigh a program counter by the number (\<open>_cnt\<close>, \<open>_pre\<close>, \<open>_post\<close>) or
  by the sum (\<open>_val\<close>) of the values it holds: a collector holds its value before the
  increment of \<open>amounts[i]\<close> (\<open>col_pre\<close>) or after it (\<open>col_post\<close>); the generator between
  its send and its two additions; the sink between its receive and its two additions.
  \<open>balance\<close> says that every counter is what the next stage has, minus or plus what is in
  flight between them. The source count is only tracked until \<open>main\<close> starts subtracting
  from it.
\<close>

fun wrk_cnt :: "wrk_pc \<Rightarrow> int64" where
  "wrk_cnt (WSend v) = 1"
| "wrk_cnt _ = 0"

fun wrk_val :: "wrk_pc \<Rightarrow> int64" where
  "wrk_val (WSend v) = v"
| "wrk_val _ = 0"

fun col_pre :: "col_pc \<Rightarrow> int64" where
  "col_pre (CLock v) = 1"
| "col_pre (CInc v) = 1"
| "col_pre _ = 0"

fun col_post :: "col_pc \<Rightarrow> int64" where
  "col_post (CUnlock v) = 1"
| "col_post (CSend v) = 1"
| "col_post _ = 0"

fun col_val :: "col_pc \<Rightarrow> int64" where
  "col_val (CLock v) = v"
| "col_val (CInc v) = v"
| "col_val (CUnlock v) = v"
| "col_val (CSend v) = v"
| "col_val _ = 0"

fun sink_cnt :: "sink_pc \<Rightarrow> int64" where
  "sink_cnt (SCount v) = 1"
| "sink_cnt _ = 0"

fun sink_val :: "sink_pc \<Rightarrow> int64" where
  "sink_val (SCount v) = v"
| "sink_val (SSum v) = v"
| "sink_val _ = 0"

definition gen_cnt :: "state \<Rightarrow> int64" where
  "gen_cnt s = (if gen s = GFn1 then 1 else 0)"

definition gen_val :: "state \<Rightarrow> int64" where
  "gen_val s = (if gen s = GFn1 \<or> gen s = GFn2 then n s else 0)"

definition balance :: "state \<Rightarrow> bool" where
  "balance s \<longleftrightarrow>
     (mainpc s = MWait \<longrightarrow>
        inputCount s = sum_list (amounts s) + sum_list (map wrk_cnt (workers s))
                       + sum_list (map col_pre (collectors s)) - gen_cnt s) \<and>
     count s = sum_list (amounts s) - of_nat (length (chOut s))
               - sum_list (map col_post (collectors s)) - sink_cnt (sink s) \<and>
     inputSum s = sum_v s + sum_list (map wrk_val (workers s))
                  + sum_list (map col_val (collectors s)) + sum_list (chOut s)
                  + sink_val (sink s) - gen_val s"

subsection \<open>Expected histories\<close>

text \<open>
  \<open>gen_cycles m\<close> is the history of \<open>m\<close> complete iterations of the generator's loop,
  \<open>gen_tail\<close> what the current iteration has logged at each program counter. \<open>sent_vals\<close>
  and \<open>called_vals\<close> project a history to the values sent and to the values the observer
  was called with; \<open>paired\<close> recognises the histories in which every call directly follows
  the send of the same value. \<open>budget\<close> counts the sends done and the one in progress.
\<close>

primrec gen_cycles :: "nat \<Rightarrow> gen_act list" where
  "gen_cycles 0 = []"
| "gen_cycles (Suc k) = gen_cycles k @ [Sent (of_nat (Suc k)), Called (of_nat (Suc k))]"

fun gen_tail :: "gen_pc \<Rightarrow> int64 \<Rightarrow> gen_act list" where
  "gen_tail GFn1 v = [Sent v]"
| "gen_tail GFn2 v = [Sent v, Called v]"
| "gen_tail GInc v = [Sent v, Called v]"
| "gen_tail GDone v = [ClosedIn]"
| "gen_tail _ v = []"

definition gen_shape :: "state \<Rightarrow> nat \<Rightarrow> bool" where
  "gen_shape s m \<longleftrightarrow> n s = of_nat (Suc m) \<and> gen_log s = gen_cycles m @ gen_tail (gen s) (n s)"

fun sent_vals :: "gen_act list \<Rightarrow> int64 list" where
  "sent_vals [] = []"
| "sent_vals (Sent v # r) = v # sent_vals r"
| "sent_vals (_ # r) = sent_vals r"

fun called_vals :: "gen_act list \<Rightarrow> int64 list" where
  "called_vals [] = []"
| "called_vals (Called v # r) = v # called_vals r"
| "called_vals (_ # r) = called_vals r"

fun paired :: "gen_act list \<Rightarrow> bool" where
  "paired [] = True"
| "paired [Sent v] = True"
| "paired [ClosedIn] = True"
| "paired (Sent v # Called w # r) = (v = w \<and> paired r)"
| "paired _ = False"

definition budget :: "state \<Rightarrow> nat" where
  "budget s = length (sent_vals (gen_log s)) + (if gen s = GSend then 1 else 0)"

text \<open>
  \<open>relay vs\<close> is the history of a worker that has relayed the values \<open>vs\<close>;
  \<open>wrk_shape l pc vs\<close> says that \<open>l\<close> is the history of a worker at \<open>pc\<close> that has forwarded
  \<open>vs\<close>.
\<close>

definition relay :: "int64 list \<Rightarrow> wrk_act list" where
  "relay vs = concat (map (\<lambda>v. [Got v, Put v, Slept]) vs)"

definition wrk_shape :: "wrk_act list \<Rightarrow> wrk_pc \<Rightarrow> int64 list \<Rightarrow> bool" where
  "wrk_shape l pc vs \<longleftrightarrow>
     (case pc of
        WRecv \<Rightarrow> l = relay vs
      | WSend v \<Rightarrow> l = relay vs @ [Got v]
      | WSleep \<Rightarrow> vs \<noteq> [] \<and> l = relay (butlast vs) @ [Got (last vs), Put (last vs)]
      | WRet \<Rightarrow> l = relay vs
      | WDone \<Rightarrow> l = relay vs @ [ClosedOut])"

definition wlog_ok :: "state \<Rightarrow> nat \<Rightarrow> bool" where
  "wlog_ok s i \<longleftrightarrow> (\<exists>vs. wrk_shape (wrk_log s ! i) (workers s ! i) vs)"

text \<open>
  The lane counters read as natural numbers, with the values still on their way to a
  counter, never exceed the number of values sent.
\<close>

fun wrk_busy :: "wrk_pc \<Rightarrow> nat" where
  "wrk_busy (WSend v) = 1"
| "wrk_busy _ = 0"

fun col_busy :: "col_pc \<Rightarrow> nat" where
  "col_busy (CLock v) = 1"
| "col_busy (CInc v) = 1"
| "col_busy _ = 0"

definition flow :: "state \<Rightarrow> bool" where
  "flow s \<longleftrightarrow>
     sum_list (map unat (amounts s)) + sum_list (map wrk_busy (workers s))
       + sum_list (map col_busy (collectors s))
     \<le> length (sent_vals (gen_log s))"

subsection \<open>The join\<close>

text \<open>\<open>wg1.Wait()\<close> in \<open>main\<close> can return: the sink has run \<open>wg1.Done()\<close>.\<close>

definition joined :: "state \<Rightarrow> bool" where
  "joined s \<longleftrightarrow> wg1 s = 0 \<and> mainpc s = MWait"

subsection \<open>Sample runs\<close>

text \<open>
  \<open>item i\<close> takes one value from the generator through lane \<open>i\<close> to the sink.
  \<open>drain2\<close> is the shutdown of a pool of two after the deadline; \<open>run3\<close> sends three values
  through a pool of two and shuts down, \<open>run3_main\<close> lets \<open>main\<close> report afterwards. The other
  runs stop at a moment of interest: the generator about to close (\<open>at_ret\<close>), about to call
  the observer (\<open>at_fn\<close>), waiting in its send when the deadline fires (\<open>at_late\<close>), worker 0
  about to close (\<open>at_wret\<close>), collector 0 terminated and collector 1 not (\<open>at_half\<close>).
  \<open>bad_sum\<close>, \<open>bad_count\<close> and \<open>bad_lanes\<close> are counter values that violate one check each.
\<close>

definition item :: "nat \<Rightarrow> event list" where
  "item i = [Gen, Wrk i, Gen, Gen, Gen, Col i, Col i, Col i, Col i, Col i, Sink, Sink, Sink, Wrk i]"

definition shutdown2 :: "event list" where
  "shutdown2 = [Gen, Wrk 0, Wrk 0, Wrk 1, Wrk 1, Col 0, Col 0, Col 1, Col 1,
                Closer, Closer, Sink, Sink]"

definition drain2 :: "event list" where
  "drain2 = Gen # shutdown2"

definition run3 :: "event list" where
  "run3 = item 0 @ item 1 @ item 0 @ Deadline # drain2"

definition final3 :: state where
  "final3 = the (exec run3 (init 2))"

definition run_ret :: "event list" where
  "run_ret = item 0 @ [Deadline, Gen]"

definition at_ret :: state where
  "at_ret = the (exec run_ret (init 2))"

definition run_fn :: "event list" where
  "run_fn = item 1 @ [Gen, Wrk 0]"

definition at_fn :: state where
  "at_fn = the (exec run_fn (init 2))"

definition run_late :: "event list" where
  "run_late = [Gen, Deadline]"

definition at_late :: state where
  "at_late = the (exec run_late (init 2))"

definition rest_late :: "event list" where
  "rest_late = [Wrk 1, Gen, Gen, Gen, Col 1, Col 1, Col 1, Col 1, Col 1, Sink, Sink, Sink, Wrk 1]
               @ drain2"

definition final_late :: state where
  "final_late = the (exec rest_late at_late)"

definition run_wret :: "event list" where
  "run_wret = run_ret @ [Gen, Wrk 0]"

definition at_wret :: state where
  "at_wret = the (exec run_wret (init 2))"

definition run_half :: "event list" where
  "run_half = run_wret @ [Wrk 0, Col 0, Col 0]"

definition at_half :: state where
  "at_half = the (exec run_half (init 2))"

definition bad_sum :: state where
  "bad_sum = (init 2)\<lparr>inputSum := 6, sum_v := 5, inputCount := 3, count := 3, amounts := [2, 1]\<rparr>"


definition bad_lanes :: state where
  "bad_lanes = (init 2)\<lparr>inputSum := 6, sum_v := 6, inputCount := 3, count := 3, amounts := [1, 1]\<rparr>"

definition run3_main :: "event list" where
  "run3_main = run3 @ [MainG]"

definition exit3 :: state where
  "exit3 = the (exec run3_main (init 2))"


text \<open>The scenario of five values through a pool of two, with the report.\<close>

definition run5 :: "event list" where
  "run5 = item 0 @ item 1 @ item 0 @ item 1 @ item 0 @ Deadline # drain2 @ [MainG]"

subsection \<open>A complete run for every pool size\<close>

text \<open>
  \<open>complete_run N k\<close> sends \<open>k\<close> values through lane 0 of a pool of \<open>N\<close>, lets the deadline
  fire and shuts down stage by stage. \<open>phase s fin a b\<close> describes the states it passes
  between values and during the shutdown: the generator at its \<open>select\<close> (or returned, when
  \<open>fin\<close>), the first \<open>a\<close> workers and the first \<open>b\<close> collectors terminated, the others
  waiting to receive, nothing in flight.
\<close>

definition phase :: "state \<Rightarrow> bool \<Rightarrow> nat \<Rightarrow> nat \<Rightarrow> bool" where
  "phase s fin a b \<longleftrightarrow>
     wf s \<and> 0 < NumOut s \<and> \<not> panicked s \<and> mainpc s = MWait \<and>
     (if fin then gen s = GDone \<and> chIn_closed s
      else gen s = GSelect \<and> \<not> chIn_closed s \<and> \<not> ctxDone s) \<and>
     (\<forall>j < NumOut s.
        workers s ! j = (if j < a then WDone else WRecv) \<and>
        (outs_closed s ! j \<longleftrightarrow> j < a) \<and>
        collectors s ! j = (if j < b then CDone else CRecv)) \<and>
     \<not> mu s \<and> chOut s = [] \<and> \<not> chOut_closed s \<and> closer s = KWait \<and> sink s = SRecv \<and>
     wg1 s = 1 \<and> wg s = NumOut s - b"

definition complete_run :: "nat \<Rightarrow> nat \<Rightarrow> event list" where
  "complete_run N k =
     concat (replicate k (item 0)) @ [Deadline, Gen, Gen]
     @ concat (map (\<lambda>i. [Wrk i, Wrk i]) [0 ..< N])
     @ concat (map (\<lambda>i. [Col i, Col i]) [0 ..< N])
     @ [Closer, Closer, Sink, Sink]"

text \<open>
  \<open>trace s m fin a\<close> describes the histories along \<open>complete_run\<close>: the generator has sent
  and counted the values \<open>1, ..., m\<close> (and has closed its lane, when \<open>fin\<close>), worker 0 has
  relayed all of them, the other workers none, the first \<open>a\<close> workers have closed their
  lanes, and the merged lane has not been closed.
\<close>

definition trace :: "state \<Rightarrow> nat \<Rightarrow> bool \<Rightarrow> nat \<Rightarrow> bool" where
  "trace s m fin a \<longleftrightarrow>
     n s = of_nat (Suc m) \<and>
     gen_log s = gen_cycles m @ (if fin then [ClosedIn] else []) \<and>
     (\<forall>j < NumOut s.
        wrk_log s ! j = (if j = 0 then relay (map of_nat [1 ..< Suc m]) else [])
                        @ (if j < a then [ClosedOut] else [])) \<and>
     chOut_closes s = 0"

text \<open>
  Further moments of interest: the generator between its two additions (\<open>at_fn2\<close>), about
  to increment (\<open>at_inc\<close>), and back at its \<open>select\<close> (\<open>at_sel\<close>); worker 0 pausing
  (\<open>at_sleep\<close>); the input lane closed with every worker still receiving (\<open>at_closed\<close>);
  every collector terminated and the closer still waiting (\<open>at_gate\<close>), then past its wait
  (\<open>at_close\<close>) and returned (\<open>at_kdone\<close>); worker 0 returned and collector 0 still
  receiving (\<open>at_wdone\<close>), then about to run \<open>wg.Done()\<close> (\<open>at_cret\<close>).
\<close>

definition at_fn2 :: state where
  "at_fn2 = the (exec (run_fn @ [Gen]) (init 2))"

definition at_inc :: state where
  "at_inc = the (exec (run_fn @ [Gen, Gen]) (init 2))"

definition at_sel :: state where
  "at_sel = the (exec (run_fn @ [Gen, Gen, Gen]) (init 2))"

definition at_sleep :: state where
  "at_sleep = the (exec (run_fn @ [Col 0]) (init 2))"

definition at_closed :: state where
  "at_closed = the (exec (run_ret @ [Gen]) (init 2))"

definition at_wdone :: state where
  "at_wdone = the (exec (run_wret @ [Wrk 0]) (init 2))"

definition at_cret :: state where
  "at_cret = the (exec (run_wret @ [Wrk 0, Col 0]) (init 2))"

definition run_gate :: "event list" where
  "run_gate = run_half @ [Wrk 1, Wrk 1, Col 1, Col 1]"

definition at_gate :: state where
  "at_gate = the (exec run_gate (init 2))"

definition at_close :: state where
  "at_close = the (exec (run_gate @ [Closer]) (init 2))"

definition at_kdone :: state where
  "at_kdone = the (exec (run_gate @ [Closer, Closer]) (init 2))"

section \<open>Proofs\<close>

subsection \<open>The cases of each step\<close>

text \<open>
  For each goroutine, the actions it can take and the state each one leads to, first as
  one disjunction, then as a rule for case analysis.
\<close>
lemma Generator_step_cases:
  "Generator_step s = Some t \<Longrightarrow>
    gen s = GSelect \<and> ctxDone s \<and> t = s\<lparr>gen := GRet\<rparr> \<or>
    gen s = GSelect \<and> \<not> ctxDone s \<and> t = s\<lparr>gen := GSend\<rparr> \<or>
    chIn_closed s \<and> gen s \<noteq> GDone \<and> t = s\<lparr>panicked := True\<rparr> \<or>
    gen s = GFn1 \<and> t = s\<lparr>inputCount := inputCount s + 1, gen := GFn2,
                         gen_log := gen_log s @ [Called (n s)]\<rparr> \<or>
    gen s = GFn2 \<and> t = s\<lparr>inputSum := inputSum s + n s, gen := GInc\<rparr> \<or>
    gen s = GInc \<and> t = s\<lparr>n := n s + 1, gen := GSelect\<rparr> \<or>
    gen s = GRet \<and> \<not> chIn_closed s \<and>
      t = s\<lparr>chIn_closed := True, gen := GDone, gen_log := gen_log s @ [ClosedIn]\<rparr>"
  by (cases "gen s") (auto simp: Generator_step_def panic_def split: if_splits)

lemma Generator_stepE:
  assumes "Generator_step s = Some t"
  obtains
    (cancelled) "gen s = GSelect" "ctxDone s" "t = s\<lparr>gen := GRet\<rparr>"
  | (default) "gen s = GSelect" "\<not> ctxDone s" "t = s\<lparr>gen := GSend\<rparr>"
  | (panic) "chIn_closed s" "gen s \<noteq> GDone" "t = s\<lparr>panicked := True\<rparr>"
  | (fn1) "gen s = GFn1"
      "t = s\<lparr>inputCount := inputCount s + 1, gen := GFn2,
                         gen_log := gen_log s @ [Called (n s)]\<rparr>"
  | (fn2) "gen s = GFn2" "t = s\<lparr>inputSum := inputSum s + n s, gen := GInc\<rparr>"
  | (inc) "gen s = GInc" "t = s\<lparr>n := n s + 1, gen := GSelect\<rparr>"
  | (ret) "gen s = GRet" "\<not> chIn_closed s"
      "t = s\<lparr>chIn_closed := True, gen := GDone, gen_log := gen_log s @ [ClosedIn]\<rparr>"
  using Generator_step_cases [OF assms]
  by (elim disjE conjE exE) (rule that; assumption)+

lemma Worker_step_cases:
  "Worker_step i s = Some t \<Longrightarrow>
    i < length (workers s) \<and>
    (workers s ! i = WRecv \<and> gen s = GSend \<and> \<not> chIn_closed s \<and>
       t = s\<lparr>workers := (workers s)[i := WSend (n s)], gen := GFn1,
              gen_log := gen_log s @ [Sent (n s)],
              wrk_log := log_at i (Got (n s)) (wrk_log s)\<rparr> \<or>
     workers s ! i = WRecv \<and> chIn_closed s \<and> t = s\<lparr>workers := (workers s)[i := WRet]\<rparr> \<or>
     outs_closed s ! i \<and> workers s ! i \<noteq> WDone \<and> t = s\<lparr>panicked := True\<rparr> \<or>
     workers s ! i = WSleep \<and>
       t = s\<lparr>workers := (workers s)[i := WRecv], wrk_log := log_at i Slept (wrk_log s)\<rparr> \<or>
     workers s ! i = WRet \<and> \<not> outs_closed s ! i \<and>
       t = s\<lparr>outs_closed := (outs_closed s)[i := True], workers := (workers s)[i := WDone],
              wrk_log := log_at i ClosedOut (wrk_log s)\<rparr>)"
  by (cases "workers s ! i") (auto simp: Worker_step_def panic_def split: if_splits)

lemma Worker_stepE:
  assumes "Worker_step i s = Some t"
  obtains
    (recv) "i < length (workers s)" "workers s ! i = WRecv" "gen s = GSend" "\<not> chIn_closed s"
      "t = s\<lparr>workers := (workers s)[i := WSend (n s)], gen := GFn1,
              gen_log := gen_log s @ [Sent (n s)],
              wrk_log := log_at i (Got (n s)) (wrk_log s)\<rparr>"
  | (closed) "i < length (workers s)" "workers s ! i = WRecv" "chIn_closed s"
      "t = s\<lparr>workers := (workers s)[i := WRet]\<rparr>"
  | (panic) "i < length (workers s)" "outs_closed s ! i" "workers s ! i \<noteq> WDone"
      "t = s\<lparr>panicked := True\<rparr>"
  | (slept) "i < length (workers s)" "workers s ! i = WSleep"
      "t = s\<lparr>workers := (workers s)[i := WRecv], wrk_log := log_at i Slept (wrk_log s)\<rparr>"
  | (ret) "i < length (workers s)" "workers s ! i = WRet" "\<not> outs_closed s ! i"
      "t = s\<lparr>outs_closed := (outs_closed s)[i := True], workers := (workers s)[i := WDone],
              wrk_log := log_at i ClosedOut (wrk_log s)\<rparr>"
  using Worker_step_cases [OF assms]
  by (elim disjE conjE exE) (rule that; assumption)+


lemma Collector_step_cases:
  "Collector_step i s = Some t \<Longrightarrow>
    i < length (collectors s) \<and> i < length (workers s) \<and> i < length (amounts s) \<and>
    ((\<exists>v. collectors s ! i = CRecv \<and> workers s ! i = WSend v \<and> \<not> outs_closed s ! i \<and>
       t = s\<lparr>collectors := (collectors s)[i := CLock v],
              workers := (workers s)[i := WSleep],
              wrk_log := log_at i (Put v) (wrk_log s)\<rparr>) \<or>
     collectors s ! i = CRecv \<and> outs_closed s ! i \<and>
       t = s\<lparr>collectors := (collectors s)[i := CRet]\<rparr> \<or>
     (\<exists>v. collectors s ! i = CLock v \<and> \<not> mu s \<and>
       t = s\<lparr>mu := True, collectors := (collectors s)[i := CInc v]\<rparr>) \<or>
     (\<exists>v. collectors s ! i = CInc v \<and>
       t = s\<lparr>amounts := (amounts s)[i := amounts s ! i + 1],
              collectors := (collectors s)[i := CUnlock v]\<rparr>) \<or>
     (\<exists>v. collectors s ! i = CUnlock v \<and>
       t = s\<lparr>mu := False, collectors := (collectors s)[i := CSend v]\<rparr>) \<or>
     (\<exists>v. collectors s ! i = CSend v \<and> chOut_closed s \<and> t = s\<lparr>panicked := True\<rparr>) \<or>
     (\<exists>v. collectors s ! i = CSend v \<and> \<not> chOut_closed s \<and> length (chOut s) < NumOut s \<and>
       t = s\<lparr>chOut := chOut s @ [v], collectors := (collectors s)[i := CRecv]\<rparr>) \<or>
     collectors s ! i = CRet \<and> wg s = 0 \<and> t = s\<lparr>panicked := True\<rparr> \<or>
     collectors s ! i = CRet \<and> wg s \<noteq> 0 \<and>
       t = s\<lparr>wg := wg s - 1, collectors := (collectors s)[i := CDone]\<rparr>)"
  by (cases "collectors s ! i"; cases "workers s ! i")
     (auto simp: Collector_step_def panic_def split: if_splits)


lemma Collector_stepE:
  assumes "Collector_step i s = Some t"
  obtains
    (recv) v where "i < length (collectors s)" "i < length (workers s)"
      "collectors s ! i = CRecv" "workers s ! i = WSend v" "\<not> outs_closed s ! i"
      "t = s\<lparr>collectors := (collectors s)[i := CLock v],
              workers := (workers s)[i := WSleep],
              wrk_log := log_at i (Put v) (wrk_log s)\<rparr>"
  | (closed) "i < length (collectors s)" "i < length (workers s)"
      "collectors s ! i = CRecv" "outs_closed s ! i"
      "t = s\<lparr>collectors := (collectors s)[i := CRet]\<rparr>"
  | (lock) v where "i < length (collectors s)" "collectors s ! i = CLock v" "\<not> mu s"
      "t = s\<lparr>mu := True, collectors := (collectors s)[i := CInc v]\<rparr>"
  | (inc) v where "i < length (collectors s)" "i < length (amounts s)" "collectors s ! i = CInc v"
      "t = s\<lparr>amounts := (amounts s)[i := amounts s ! i + 1],
              collectors := (collectors s)[i := CUnlock v]\<rparr>"
  | (unlock) v where "i < length (collectors s)" "collectors s ! i = CUnlock v"
      "t = s\<lparr>mu := False, collectors := (collectors s)[i := CSend v]\<rparr>"
  | (send_panic) v where "i < length (collectors s)" "collectors s ! i = CSend v"
      "chOut_closed s" "t = s\<lparr>panicked := True\<rparr>"
  | (send) v where "i < length (collectors s)" "collectors s ! i = CSend v"
      "\<not> chOut_closed s" "length (chOut s) < NumOut s"
      "t = s\<lparr>chOut := chOut s @ [v], collectors := (collectors s)[i := CRecv]\<rparr>"
  | (finish_panic) "i < length (collectors s)" "collectors s ! i = CRet" "wg s = 0"
      "t = s\<lparr>panicked := True\<rparr>"
  | (finish) "i < length (collectors s)" "collectors s ! i = CRet" "wg s \<noteq> 0"
      "t = s\<lparr>wg := wg s - 1, collectors := (collectors s)[i := CDone]\<rparr>"
  using Collector_step_cases [OF assms]
  by (elim disjE conjE exE) (rule that; assumption)+

lemma Closer_step_cases:
  "Closer_step s = Some t \<Longrightarrow>
     closer s = KWait \<and> wg s = 0 \<and> t = s\<lparr>closer := KClose\<rparr> \<or>
     closer s = KClose \<and> chOut_closed s \<and> t = s\<lparr>panicked := True\<rparr> \<or>
     closer s = KClose \<and> \<not> chOut_closed s \<and> t = s\<lparr>chOut_closed := True, closer := KDone, chOut_closes := chOut_closes s + 1\<rparr>"
  by (cases "closer s") (auto simp: Closer_step_def panic_def split: if_splits)

lemma Closer_stepE:
  assumes "Closer_step s = Some t"
  obtains
    (wait) "closer s = KWait" "wg s = 0" "t = s\<lparr>closer := KClose\<rparr>"
  | (close_panic) "closer s = KClose" "chOut_closed s" "t = s\<lparr>panicked := True\<rparr>"
  | (close) "closer s = KClose" "\<not> chOut_closed s"
      "t = s\<lparr>chOut_closed := True, closer := KDone, chOut_closes := chOut_closes s + 1\<rparr>"
  using Closer_step_cases [OF assms]
  by (elim disjE conjE exE) (rule that; assumption)+

lemma Sink_step_cases:
  "Sink_step s = Some t \<Longrightarrow>
     (\<exists>v vs. sink s = SRecv \<and> chOut s = v # vs \<and> t = s\<lparr>chOut := vs, sink := SCount v\<rparr>) \<or>
     sink s = SRecv \<and> chOut s = [] \<and> chOut_closed s \<and> t = s\<lparr>sink := SRet\<rparr> \<or>
     (\<exists>v. sink s = SCount v \<and> t = s\<lparr>count := count s + 1, sink := SSum v\<rparr>) \<or>
     (\<exists>v. sink s = SSum v \<and> t = s\<lparr>sum_v := sum_v s + v, sink := SRecv\<rparr>) \<or>
     sink s = SRet \<and> wg1 s = 0 \<and> t = s\<lparr>panicked := True\<rparr> \<or>
     sink s = SRet \<and> wg1 s \<noteq> 0 \<and> t = s\<lparr>wg1 := wg1 s - 1, sink := SDone\<rparr>"
  by (cases "sink s"; cases "chOut s") (auto simp: Sink_step_def panic_def split: if_splits)

lemma Sink_stepE:
  assumes "Sink_step s = Some t"
  obtains
    (recv) v vs where "sink s = SRecv" "chOut s = v # vs" "t = s\<lparr>chOut := vs, sink := SCount v\<rparr>"
  | (closed) "sink s = SRecv" "chOut s = []" "chOut_closed s" "t = s\<lparr>sink := SRet\<rparr>"
  | (count) v where "sink s = SCount v" "t = s\<lparr>count := count s + 1, sink := SSum v\<rparr>"
  | (sum) v where "sink s = SSum v" "t = s\<lparr>sum_v := sum_v s + v, sink := SRecv\<rparr>"
  | (finish_panic) "sink s = SRet" "wg1 s = 0" "t = s\<lparr>panicked := True\<rparr>"
  | (finish) "sink s = SRet" "wg1 s \<noteq> 0" "t = s\<lparr>wg1 := wg1 s - 1, sink := SDone\<rparr>"
  using Sink_step_cases [OF assms]
  by (elim disjE conjE exE) (rule that; assumption)+

lemma step_cases:
  assumes "step e s = Some t"
  obtains
    (deadline) "e = Deadline" "t = s\<lparr>ctxDone := True\<rparr>"
  | (gen) "e = Gen" "Generator_step s = Some t"
  | (wrk) i where "e = Wrk i" "Worker_step i s = Some t"
  | (col) i where "e = Col i" "Collector_step i s = Some t"
  | (closer) "e = Closer" "Closer_step s = Some t"
  | (sink) "e = Sink" "Sink_step s = Some t"
  | (main) "e = MainG" "wg1 s = 0" "t = report_and_verify s"
  using assms
  by (cases e) (auto simp: step_def Main_step_def split: if_splits main_pc.splits)

lemma step_running: "step e s = Some t \<Longrightarrow> \<not> panicked s \<and> mainpc s = MWait"
  by (auto simp: step_def split: if_splits)

subsection \<open>Sums over a slice updated at one index\<close>

lemma sum_list_map_update:
  "i < length xs \<Longrightarrow>
     sum_list (map f (xs[i := x])) + f (xs ! i) = sum_list (map f xs) + (f x :: 'a :: comm_monoid_add)"
proof (induction xs arbitrary: i)
  case Nil
  then show ?case by simp
next
  case (Cons a xs)
  then show ?case by (cases i) (simp_all add: ac_simps)
qed

lemma sum_list_replicate_one: "sum_list (replicate N (Suc 0)) = N"
  by (induction N) simp_all

lemma live_zero_nth: "\<forall>c \<in> set cs. live c = 0 \<Longrightarrow> k < length cs \<Longrightarrow> live (cs ! k) = 0"
  by simp

lemma live_update_same:
  "k < length cs \<Longrightarrow> live c = live (cs ! k) \<Longrightarrow>
     sum_list (map live (cs[k := c])) = sum_list (map live cs)"
  using sum_list_map_update [of k cs live c] by simp

lemma live_update_done:
  "k < length cs \<Longrightarrow> live (cs ! k) = 1 \<Longrightarrow>
     sum_list (map live (cs[k := CDone])) = sum_list (map live cs) - 1"
  using sum_list_map_update [of k cs live CDone] by simp

subsection \<open>What the report leaves unchanged\<close>

lemma fold_subtract:
  "fold (\<lambda>v t. t\<lparr>inputCount := inputCount t - v\<rparr>) vs u =
     u\<lparr>inputCount := inputCount u - sum_list vs\<rparr>"
  by (induction vs arbitrary: u) (simp_all add: algebra_simps)

lemma subtract_amounts_eq:
  "subtract_amounts s = s\<lparr>inputCount := inputCount s - sum_list (amounts s)\<rparr>"
  by (simp add: subtract_amounts_def fold_subtract)

lemmas report_defs = report_and_verify_def Println_def Fatalf_def subtract_amounts_eq Let_def

lemma report_unchanged:
  "NumOut (report_and_verify s) = NumOut s"
  "gen (report_and_verify s) = gen s"
  "n (report_and_verify s) = n s"
  "chIn_closed (report_and_verify s) = chIn_closed s"
  "inputSum (report_and_verify s) = inputSum s"
  "workers (report_and_verify s) = workers s"
  "outs_closed (report_and_verify s) = outs_closed s"
  "collectors (report_and_verify s) = collectors s"
  "mu (report_and_verify s) = mu s"
  "amounts (report_and_verify s) = amounts s"
  "wg (report_and_verify s) = wg s"
  "chOut (report_and_verify s) = chOut s"
  "chOut_closed (report_and_verify s) = chOut_closed s"
  "closer (report_and_verify s) = closer s"
  "count (report_and_verify s) = count s"
  "sum_v (report_and_verify s) = sum_v s"
  "sink (report_and_verify s) = sink s"
  "wg1 (report_and_verify s) = wg1 s"
  "panicked (report_and_verify s) = panicked s"
  "gen_log (report_and_verify s) = gen_log s"
  "wrk_log (report_and_verify s) = wrk_log s"
  "chOut_closes (report_and_verify s) = chOut_closes s"
  by (simp_all add: report_defs)

lemma report_exits: "mainpc (report_and_verify s) \<noteq> MWait"
  by (simp add: report_defs)

subsection \<open>The slices keep their length\<close>

lemma wf_init: "wf (init N)"
  by (simp add: wf_def init_def)

lemma wf_step: "step e s = Some t \<Longrightarrow> wf s \<Longrightarrow> wf t"
proof (erule step_cases)
  show "Generator_step s = Some t \<Longrightarrow> wf s \<Longrightarrow> wf t"
    by (erule Generator_stepE) (simp_all add: wf_def)
  show "Worker_step i s = Some t \<Longrightarrow> wf s \<Longrightarrow> wf t" for i
    by (erule Worker_stepE) (simp_all add: wf_def log_at_def)
  show "Collector_step i s = Some t \<Longrightarrow> wf s \<Longrightarrow> wf t" for i
    by (erule Collector_stepE) (simp_all add: wf_def log_at_def)
  show "Closer_step s = Some t \<Longrightarrow> wf s \<Longrightarrow> wf t"
    by (erule Closer_stepE) (simp_all add: wf_def)
  show "Sink_step s = Some t \<Longrightarrow> wf s \<Longrightarrow> wf t"
    by (erule Sink_stepE) (simp_all add: wf_def)
qed (simp_all add: wf_def report_unchanged)


subsection \<open>The safety invariant is preserved\<close>

lemma gen_ok_step: "step e s = Some t \<Longrightarrow> gen_ok s \<Longrightarrow> gen_ok t"
proof (erule step_cases)
  show "Generator_step s = Some t \<Longrightarrow> gen_ok s \<Longrightarrow> gen_ok t"
    by (erule Generator_stepE) (simp_all add: gen_ok_def)
  show "Worker_step i s = Some t \<Longrightarrow> gen_ok s \<Longrightarrow> gen_ok t" for i
    by (erule Worker_stepE) (simp_all add: gen_ok_def)
  show "Collector_step i s = Some t \<Longrightarrow> gen_ok s \<Longrightarrow> gen_ok t" for i
    by (erule Collector_stepE) (simp_all add: gen_ok_def)
  show "Closer_step s = Some t \<Longrightarrow> gen_ok s \<Longrightarrow> gen_ok t"
    by (erule Closer_stepE) (simp_all add: gen_ok_def)
  show "Sink_step s = Some t \<Longrightarrow> gen_ok s \<Longrightarrow> gen_ok t"
    by (erule Sink_stepE) (simp_all add: gen_ok_def)
  show "t = report_and_verify s \<Longrightarrow> gen_ok s \<Longrightarrow> gen_ok t"
    by (simp add: gen_ok_def report_unchanged)
qed (simp_all add: gen_ok_def)

lemma lane_ok_step:
  assumes "step e s = Some t" and "wf s" and "gen_ok s" and "lane_ok s i"
  shows "lane_ok t i"
  using assms(1)
proof (cases rule: step_cases)
  case gen
  then show ?thesis using assms(2-)
    by (elim Generator_stepE) (auto simp: lane_ok_def gen_ok_def)
next
  case (wrk k)
  then show ?thesis using assms(2-)
    by (elim Worker_stepE) (auto simp: lane_ok_def gen_ok_def wf_def nth_list_update)
next
  case (col k)
  then show ?thesis using assms(2-)
    by (elim Collector_stepE) (auto simp: lane_ok_def gen_ok_def wf_def nth_list_update)
next
  case closer
  then show ?thesis using assms(2-)
    by (elim Closer_stepE) (auto simp: lane_ok_def)
next
  case sink
  then show ?thesis using assms(2-)
    by (elim Sink_stepE) (auto simp: lane_ok_def)
next
  case main
  then show ?thesis using assms(2-) by (simp add: lane_ok_def report_unchanged)
qed (use assms in \<open>simp_all add: lane_ok_def\<close>)


lemma tail_ok_step:
  assumes "step e s = Some t" and "tail_ok s"
  shows "tail_ok t"
  using assms(1)
proof (cases rule: step_cases)
  case gen
  then show ?thesis using assms(2)
    by (elim Generator_stepE) (auto simp: tail_ok_def)
next
  case (wrk k)
  then show ?thesis using assms(2)
    by (elim Worker_stepE) (auto simp: tail_ok_def)
next
  case (col k)
  then show ?thesis using assms(2)
    by (elim Collector_stepE)
       (auto simp: tail_ok_def live_update_same live_update_done)
next
  case closer
  then show ?thesis using assms(2)
    by (elim Closer_stepE) (auto simp: tail_ok_def)
next
  case sink
  then show ?thesis using assms(2)
    by (elim Sink_stepE) (auto simp: tail_ok_def)
next
  case main
  then show ?thesis using assms(2) step_running [OF assms(1)]
    by (auto simp: tail_ok_def report_unchanged split: if_splits)
qed (use assms in \<open>auto simp: tail_ok_def\<close>)

lemma no_panic_step:
  assumes "step e s = Some t" and "safe s"
  shows "\<not> panicked t"
  using assms(1)
proof (cases rule: step_cases)
  case gen
  then show ?thesis using assms(2)
    by (elim Generator_stepE) (auto simp: safe_def gen_ok_def)
next
  case (wrk k)
  then show ?thesis using assms(2)
    by (elim Worker_stepE) (auto simp: safe_def wf_def lane_ok_def)
next
  case (col k)
  then show ?thesis using assms(2)
    using live_zero_nth [of "collectors s" k]
    by (elim Collector_stepE) (auto simp: safe_def wf_def tail_ok_def)
next
  case closer
  then show ?thesis using assms(2)
    by (elim Closer_stepE) (auto simp: safe_def tail_ok_def)
next
  case sink
  then show ?thesis using assms(2)
    by (elim Sink_stepE) (auto simp: safe_def tail_ok_def split: if_splits)
next
  case main
  then show ?thesis using assms(2) by (simp add: safe_def report_unchanged)
qed (use assms in \<open>simp_all add: safe_def\<close>)

lemma NumOut_step: "step e s = Some t \<Longrightarrow> NumOut t = NumOut s"
proof (erule step_cases)
  show "Generator_step s = Some t \<Longrightarrow> NumOut t = NumOut s"
    by (erule Generator_stepE) simp_all
  show "Worker_step i s = Some t \<Longrightarrow> NumOut t = NumOut s" for i
    by (erule Worker_stepE) simp_all
  show "Collector_step i s = Some t \<Longrightarrow> NumOut t = NumOut s" for i
    by (erule Collector_stepE) simp_all
  show "Closer_step s = Some t \<Longrightarrow> NumOut t = NumOut s"
    by (erule Closer_stepE) simp_all
  show "Sink_step s = Some t \<Longrightarrow> NumOut t = NumOut s"
    by (erule Sink_stepE) simp_all
qed (simp_all add: report_unchanged)

lemma safe_step:
  assumes "step e s = Some t" and "safe s"
  shows "safe t"
  using assms wf_step [OF assms(1)] gen_ok_step [OF assms(1)] tail_ok_step [OF assms(1)]
    no_panic_step [OF assms] NumOut_step [OF assms(1)] lane_ok_step [OF assms(1)]
  by (simp add: safe_def)

lemma safe_init: "safe (init N)"
  by (simp add: safe_def wf_def gen_ok_def lane_ok_def tail_ok_def init_def sum_list_replicate_one)

lemma exec_invariant:
  assumes "\<And>e s t. step e s = Some t \<Longrightarrow> P s \<Longrightarrow> P t"
  shows "exec es s = Some t \<Longrightarrow> P s \<Longrightarrow> P t"
proof (induction es arbitrary: s)
  case Nil
  then show ?case by simp
next
  case (Cons e es)
  then show ?case by (auto split: option.splits dest: assms)
qed

lemma safe_exec: "exec es (init N) = Some s \<Longrightarrow> safe s"
  using exec_invariant [of safe es "init N" s] safe_step safe_init by blast

subsection \<open>Conservation\<close>

lemma sum_list_map_update_ring:
  "i < length xs \<Longrightarrow>
     sum_list (map f (xs[i := x])) = sum_list (map f xs) - f (xs ! i) + (f x :: 'a :: ab_group_add)"
  using sum_list_map_update [of i xs f x] by (simp add: algebra_simps)

lemma sum_list_update_ring:
  "i < length xs \<Longrightarrow> sum_list (xs[i := x]) = sum_list xs - xs ! i + (x :: 'a :: ab_group_add)"
  using sum_list_map_update_ring [of i xs "\<lambda>x. x" x] by simp

lemmas balance_simps = balance_def gen_cnt_def gen_val_def wf_def
  sum_list_map_update_ring sum_list_update_ring

lemma balance_step:
  assumes "step e s = Some t" and "wf s" and "balance s"
  shows "balance t"
  using assms(1)
proof (cases rule: step_cases)
  case gen
  then show ?thesis using assms(2-) step_running [OF assms(1)]
    by (elim Generator_stepE) (auto simp: balance_simps)
next
  case (wrk k)
  then show ?thesis using assms(2-) step_running [OF assms(1)]
    by (elim Worker_stepE) (auto simp: balance_simps)
next
  case (col k)
  then show ?thesis using assms(2-) step_running [OF assms(1)]
    by (elim Collector_stepE) (auto simp: balance_simps)
next
  case closer
  then show ?thesis using assms(2-) step_running [OF assms(1)]
    by (elim Closer_stepE) (auto simp: balance_simps)
next
  case sink
  then show ?thesis using assms(2-) step_running [OF assms(1)]
    by (elim Sink_stepE) (auto simp: balance_simps)
next
  case main
  then show ?thesis using assms(2-) step_running [OF assms(1)]
    by (simp add: balance_simps report_unchanged report_exits)
qed (use assms step_running [OF assms(1)] in \<open>auto simp: balance_simps\<close>)


lemma sum_list_replicate_zero: "sum_list (replicate N (0 :: 'a :: comm_monoid_add)) = 0"
  by (induction N) simp_all

lemma balance_init: "balance (init N)"
  by (simp add: balance_def gen_cnt_def gen_val_def init_def sum_list_replicate_zero)

lemma safe_balance_exec:
  assumes "exec es (init N) = Some s"
  shows "safe s \<and> balance s"
proof (rule exec_invariant [where P = "\<lambda>s. safe s \<and> balance s", OF _ assms])
  show "safe t \<and> balance t" if "step e u = Some t" and "safe u \<and> balance u" for e u t
    using that safe_step [of e u t] balance_step [of e u t] by (simp add: safe_def)
  show "safe (init N) \<and> balance (init N)"
    by (simp add: safe_init balance_init)
qed

lemma NumOut_exec:
  assumes "exec es (init N) = Some s"
  shows "NumOut s = N"
  by (rule exec_invariant [where P = "\<lambda>s. NumOut s = N", OF _ assms])
     (simp_all add: NumOut_step init_def)

lemma sum_list_map_zero: "\<forall>x \<in> set xs. f x = (0 :: 'a :: comm_monoid_add) \<Longrightarrow> sum_list (map f xs) = 0"
  by (induction xs) simp_all

lemma quiescent:
  assumes "safe s" and "wg1 s = 0"
  shows "sink s = SDone \<and> chOut s = [] \<and> chOut_closed s \<and> closer s = KDone \<and> wg s = 0 \<and>
         (\<forall>c \<in> set (collectors s). c = CDone) \<and> (\<forall>w \<in> set (workers s). w = WDone) \<and>
         (\<forall>b \<in> set (outs_closed s). b) \<and> (0 < NumOut s \<longrightarrow> gen s = GDone \<and> chIn_closed s)"
proof -
  from assms have sink: "sink s = SDone" by (auto simp: safe_def tail_ok_def split: if_splits)
  with assms have out: "chOut s = []" "chOut_closed s" "closer s = KDone" "wg s = 0"
    by (auto simp: safe_def tail_ok_def)
  have len: "length (collectors s) = NumOut s" "length (workers s) = NumOut s"
    "length (outs_closed s) = NumOut s"
    using assms by (auto simp: safe_def wf_def)
  from assms out have live0: "\<forall>c \<in> set (collectors s). live c = 0"
    by (auto simp: safe_def tail_ok_def)
  have col: "c = CDone" if "c \<in> set (collectors s)" for c
    using live0 that by (cases c) auto
  have lane: "lane_ok s i" if "i < NumOut s" for i
    using assms that by (simp add: safe_def)
  have wrk: "workers s ! i = WDone \<and> outs_closed s ! i \<and> chIn_closed s" if "i < NumOut s" for i
  proof -
    from that len have "collectors s ! i \<in> set (collectors s)" by simp
    then have "collectors s ! i = CDone" by (rule col)
    with lane [OF that] show ?thesis by (simp add: lane_ok_def)
  qed
  have "\<forall>w \<in> set (workers s). w = WDone"
    using wrk len by (auto simp: in_set_conv_nth)
  moreover have "\<forall>b \<in> set (outs_closed s). b"
    using wrk len by (auto simp: in_set_conv_nth)
  moreover have "0 < NumOut s \<longrightarrow> gen s = GDone \<and> chIn_closed s"
    using wrk [of 0] assms by (auto simp: safe_def gen_ok_def)
  ultimately show ?thesis using sink out col by blast
qed

lemma still_running:
  assumes "exec es (init N) = Some s" and "1 \<le> N"
    and "gen s \<noteq> GDone \<or> (\<exists>w \<in> set (workers s). w \<noteq> WDone)"
  shows "mainpc s = MWait"
proof (rule ccontr)
  assume m: "mainpc s \<noteq> MWait"
  from safe_balance_exec [OF assms(1)] have safe: "safe s" ..
  with m have "wg1 s = 0" by (simp add: safe_def tail_ok_def)
  from quiescent [OF safe this] NumOut_exec [OF assms(1)] assms(2,3)
  show False by auto
qed

lemma joined_totals:
  assumes "exec es (init N) = Some s" and "1 \<le> N" and "joined s"
  shows "inputCount s = count s" and "inputSum s = sum_v s" and "sum_list (amounts s) = inputCount s"
proof -
  from safe_balance_exec [OF assms(1)] have sb: "safe s" "balance s" by simp_all
  from assms(3) have j: "wg1 s = 0" "mainpc s = MWait" by (simp_all add: joined_def)
  note q = quiescent [OF sb(1) j(1)]
  have N: "NumOut s = N" by (rule NumOut_exec [OF assms(1)])
  from q N assms(2) have g: "gen s = GDone" by simp
  from q have z: "sum_list (map wrk_cnt (workers s)) = 0" "sum_list (map col_pre (collectors s)) = 0"
    "sum_list (map col_post (collectors s)) = 0" "sum_list (map wrk_val (workers s)) = 0"
    "sum_list (map col_val (collectors s)) = 0"
    by (auto intro!: sum_list_map_zero)
  from sb(2) j q g z show "inputCount s = count s" and "inputSum s = sum_v s"
    and "sum_list (amounts s) = inputCount s"
    by (simp_all add: balance_def gen_cnt_def gen_val_def)
qed

lemma run3_exec: "exec run3 (init 2) = Some final3"
proof -
  have "exec run3 (init 2) \<noteq> None" by code_simp
  then show ?thesis by (simp add: final3_def)
qed

lemma run3_joined: "joined final3"
  unfolding final3_def by code_simp

text \<open>
  C1. When the sink goroutine is joined (\<open>wg1.Wait()\<close> can return in \<open>main\<close>), the
  pipeline has drained: the generator has returned, every lane is closed and empty, every
  worker and collector has terminated. Then the source totals equal the sink totals, for
  every pool size \<open>N \<ge> 1\<close>, every moment at which the deadline fires and every
  interleaving.
\<close>

theorem conservation:
  assumes "exec es (init N) = Some s" and "1 \<le> N" and "joined s"
  shows "inputCount s = count s \<and> inputSum s = sum_v s \<and>
         gen s = GDone \<and> chIn_closed s \<and>
         (\<forall>i < N. workers s ! i = WDone \<and> outs_closed s ! i \<and> collectors s ! i = CDone) \<and>
         closer s = KDone \<and> chOut_closed s \<and> chOut s = [] \<and> sink s = SDone"
proof -
  from safe_balance_exec [OF assms(1)] have safe: "safe s" ..
  have N: "NumOut s = N" by (rule NumOut_exec [OF assms(1)])
  from safe N have len: "length (workers s) = N" "length (outs_closed s) = N"
    "length (collectors s) = N"
    by (simp_all add: safe_def wf_def)
  from assms(3) have "wg1 s = 0" by (simp add: joined_def)
  note q = quiescent [OF safe this]
  have "workers s ! i = WDone \<and> outs_closed s ! i \<and> collectors s ! i = CDone" if "i < N" for i
    using q len that by (simp add: all_set_conv_all_nth)
  with q N assms(2) joined_totals(1,2) [OF assms] show ?thesis by simp
qed

theorem conservation_witness:
  "exec run3 (init 2) = Some final3 \<and> (1::nat) \<le> 2 \<and> joined final3 \<and>
   inputCount final3 = count final3 \<and> inputSum final3 = sum_v final3 \<and>
   count final3 = 3 \<and> sum_v final3 = 6"
proof -
  have "count final3 = 3" and "sum_v final3 = 6"
    unfolding final3_def by code_simp+
  then show ?thesis
    using conservation [OF run3_exec _ run3_joined] run3_exec run3_joined by simp
qed

subsection \<open>The generator's log\<close>

lemma gen_shape_step:
  assumes "step e s = Some t" and "gen_shape s m"
  shows "\<exists>k. gen_shape t k"
  using assms(1)
proof (cases rule: step_cases)
  case gen
  from this(2) show ?thesis
  proof (cases rule: Generator_stepE)
    case inc
    with assms(2) have "gen_shape t (Suc m)" by (simp add: gen_shape_def)
    then show ?thesis ..
  qed (use assms(2) in \<open>auto simp: gen_shape_def intro!: exI [of _ m]\<close>)
next
  case (wrk k)
  then show ?thesis using assms(2)
    by (elim Worker_stepE) (auto simp: gen_shape_def intro!: exI [of _ m])
next
  case (col k)
  then show ?thesis using assms(2)
    by (elim Collector_stepE) (auto simp: gen_shape_def intro!: exI [of _ m])
next
  case closer
  then show ?thesis using assms(2)
    by (elim Closer_stepE) (auto simp: gen_shape_def intro!: exI [of _ m])
next
  case sink
  then show ?thesis using assms(2)
    by (elim Sink_stepE) (auto simp: gen_shape_def intro!: exI [of _ m])
next
  case main
  then show ?thesis using assms(2)
    by (auto simp: gen_shape_def report_unchanged intro!: exI [of _ m])
qed (use assms(2) in \<open>auto simp: gen_shape_def intro!: exI [of _ m]\<close>)

lemma gen_shape_exec:
  assumes "exec es (init N) = Some s"
  shows "\<exists>m. gen_shape s m"
proof (rule exec_invariant [where P = "\<lambda>s. \<exists>m. gen_shape s m", OF _ assms])
  show "\<exists>m. gen_shape t m" if "step e u = Some t" and "\<exists>m. gen_shape u m" for e u t
    using that gen_shape_step by blast
  show "\<exists>m. gen_shape (init N) m"
    by (rule exI [of _ 0]) (simp add: gen_shape_def init_def)
qed

lemma sent_vals_append: "sent_vals (xs @ ys) = sent_vals xs @ sent_vals ys"
  by (induction xs rule: sent_vals.induct) simp_all

lemma called_vals_append: "called_vals (xs @ ys) = called_vals xs @ called_vals ys"
  by (induction xs rule: called_vals.induct) simp_all

lemma sent_vals_cycles: "sent_vals (gen_cycles m) = map of_nat [1 ..< Suc m]"
  by (induction m) (simp_all add: sent_vals_append)

lemma called_vals_cycles: "called_vals (gen_cycles m) = map of_nat [1 ..< Suc m]"
  by (induction m) (simp_all add: called_vals_append)

lemma paired_cycles: "paired (gen_cycles m @ r) = paired r"
  by (induction m arbitrary: r) simp_all

lemma paired_tail: "paired (gen_tail pc v)"
  by (cases pc) simp_all


lemma gen_shape_sent:
  assumes "gen_shape s m"
  shows "sent_vals (gen_log s) = map of_nat [1 ..< Suc (length (sent_vals (gen_log s)))]"
proof -
  have "\<exists>k. sent_vals (gen_log s) = map of_nat [1 ..< Suc k]"
  proof (cases "gen s = GFn1 \<or> gen s = GFn2 \<or> gen s = GInc")
    case True
    with assms have "sent_vals (gen_log s) = map of_nat [1 ..< Suc m] @ [of_nat (Suc m)]"
      by (auto simp: gen_shape_def sent_vals_append sent_vals_cycles)
    also have "\<dots> = map of_nat [1 ..< Suc (Suc m)]" by simp
    finally show ?thesis ..
  next
    case False
    with assms have "sent_vals (gen_log s) = map of_nat [1 ..< Suc m]"
      by (cases "gen s") (simp_all add: gen_shape_def sent_vals_append sent_vals_cycles)
    then show ?thesis ..
  qed
  then obtain k where k: "sent_vals (gen_log s) = map of_nat [1 ..< Suc k]" ..
  then have "length (sent_vals (gen_log s)) = k" by simp
  with k show ?thesis by simp
qed

lemma gen_shape_calls:
  assumes "gen_shape s m"
  shows "gen s \<noteq> GFn1 \<Longrightarrow> called_vals (gen_log s) = sent_vals (gen_log s)"
    and "gen s = GFn1 \<Longrightarrow> sent_vals (gen_log s) = called_vals (gen_log s) @ [n s]"
  using assms
  by (cases "gen s";
      simp add: gen_shape_def sent_vals_append sent_vals_cycles called_vals_append
        called_vals_cycles)+

lemma run_ret_exec: "exec run_ret (init 2) = Some at_ret"
proof -
  have "exec run_ret (init 2) \<noteq> None" by code_simp
  then show ?thesis by (simp add: at_ret_def)
qed

lemma run_fn_exec: "exec run_fn (init 2) = Some at_fn"
proof -
  have "exec run_fn (init 2) \<noteq> None" by code_simp
  then show ?thesis by (simp add: at_fn_def)
qed

lemma run_late_exec: "exec run_late (init 2) = Some at_late"
proof -
  have "exec run_late (init 2) \<noteq> None" by code_simp
  then show ?thesis by (simp add: at_late_def)
qed

lemma rest_late_exec: "exec rest_late at_late = Some final_late"
proof -
  have "exec rest_late at_late \<noteq> None" unfolding at_late_def by code_simp
  then show ?thesis by (simp add: final_late_def)
qed

text \<open>
  C4. In every reachable state the generator's log is a sequence of pairs \<open>Sent v, Called v\<close>
  (the call directly after its send), possibly followed by one \<open>Sent v\<close> whose call is
  pending, or by the close. Outside that pending moment the values the observer was called
  with are exactly the values sent; in it, the generator's next action is enabled and is
  that call, so that no value stays sent and not counted.
\<close>

theorem observer_after_send:
  assumes "exec es (init N) = Some s" and "1 \<le> N"
  shows "paired (gen_log s) \<and>
         (gen s \<noteq> GFn1 \<longrightarrow> called_vals (gen_log s) = sent_vals (gen_log s)) \<and>
         (gen s = GFn1 \<longrightarrow>
            sent_vals (gen_log s) = called_vals (gen_log s) @ [n s] \<and>
            (\<exists>t. step Gen s = Some t \<and> gen_log t = gen_log s @ [Called (n s)] \<and>
                 called_vals (gen_log t) = sent_vals (gen_log t)))"
proof -
  from gen_shape_exec [OF assms(1)] obtain m where m: "gen_shape s m" ..
  from safe_balance_exec [OF assms(1)] have np: "\<not> panicked s" by (simp add: safe_def)
  have p: "paired (gen_log s)"
    using m by (simp add: gen_shape_def paired_cycles paired_tail)
  have "\<exists>t. step Gen s = Some t \<and> gen_log t = gen_log s @ [Called (n s)] \<and>
            called_vals (gen_log t) = sent_vals (gen_log t)"
    if "gen s = GFn1"
    using that np gen_shape_calls(2) [OF m] still_running [OF assms]
    by (simp add: step_def Generator_step_def called_vals_append sent_vals_append)
  with p gen_shape_calls [OF m] show ?thesis by blast
qed

theorem observer_after_send_witness:
  "exec run_fn (init 2) = Some at_fn \<and> (1::nat) \<le> 2 \<and> gen at_fn = GFn1 \<and>
   paired (gen_log at_fn) \<and> sent_vals (gen_log at_fn) = called_vals (gen_log at_fn) @ [2] \<and>
   (\<exists>t. step Gen at_fn = Some t \<and> gen_log t = gen_log at_fn @ [Called 2] \<and>
        called_vals (gen_log t) = sent_vals (gen_log t))"
proof -
  have a: "gen at_fn = GFn1" "n at_fn = 2"
    unfolding at_fn_def by code_simp+
  from observer_after_send [OF run_fn_exec] a run_fn_exec show ?thesis by auto
qed

subsection \<open>After cancellation\<close>

lemma stopped_step:
  assumes "step e s = Some t" and "gen s = GRet \<or> gen s = GDone"
  shows "(gen t = GRet \<or> gen t = GDone) \<and> sent_vals (gen_log t) = sent_vals (gen_log s) \<and> n t = n s"
  using assms(1)
proof (cases rule: step_cases)
  case gen
  then show ?thesis using assms(2)
    by (elim Generator_stepE) (auto simp: sent_vals_append)
next
  case (wrk k)
  then show ?thesis using assms(2)
    by (elim Worker_stepE) auto
next
  case (col k)
  then show ?thesis using assms(2)
    by (elim Collector_stepE) auto
next
  case closer
  then show ?thesis using assms(2)
    by (elim Closer_stepE) auto
next
  case sink
  then show ?thesis using assms(2)
    by (elim Sink_stepE) auto
next
  case main
  then show ?thesis using assms(2) by (simp add: report_unchanged)
qed (use assms(2) in auto)

lemma stopped_exec:
  "exec es s = Some t \<Longrightarrow> gen s = GRet \<or> gen s = GDone \<Longrightarrow>
     (gen t = GRet \<or> gen t = GDone) \<and> sent_vals (gen_log t) = sent_vals (gen_log s) \<and> n t = n s"
proof (induction es arbitrary: s)
  case Nil
  then show ?case by simp
next
  case (Cons e es)
  from Cons.prems(1) obtain u where u: "step e s = Some u" "exec es u = Some t"
    by (auto split: option.splits)
  from stopped_step [OF u(1) Cons.prems(2)] Cons.IH [OF u(2)] show ?case by simp
qed

lemma report_ctxDone: "ctxDone s \<Longrightarrow> ctxDone (report_and_verify s)"
  by (simp add: report_defs)

lemma budget_step:
  assumes "step e s = Some t" and "ctxDone s"
  shows "ctxDone t \<and> budget t \<le> budget s"
  using assms(1)
proof (cases rule: step_cases)
  case gen
  then show ?thesis using assms(2)
    by (elim Generator_stepE) (auto simp: budget_def sent_vals_append)
next
  case (wrk k)
  then show ?thesis using assms(2)
    by (elim Worker_stepE) (auto simp: budget_def sent_vals_append)
next
  case (col k)
  then show ?thesis using assms(2)
    by (elim Collector_stepE) (auto simp: budget_def)
next
  case closer
  then show ?thesis using assms(2)
    by (elim Closer_stepE) (auto simp: budget_def)
next
  case sink
  then show ?thesis using assms(2)
    by (elim Sink_stepE) (auto simp: budget_def)
next
  case main
  then show ?thesis using assms(2) by (simp add: budget_def report_unchanged report_ctxDone)
qed (use assms(2) in \<open>auto simp: budget_def\<close>)

lemma budget_exec:
  "exec es s = Some t \<Longrightarrow> ctxDone s \<Longrightarrow> ctxDone t \<and> budget t \<le> budget s"
proof (induction es arbitrary: s)
  case Nil
  then show ?case by simp
next
  case (Cons e es)
  from Cons.prems(1) obtain u where u: "step e s = Some u" "exec es u = Some t"
    by (auto split: option.splits)
  from budget_step [OF u(1) Cons.prems(2)] Cons.IH [OF u(2)] show ?case by simp
qed

text \<open>
  C9. From a state in which the generator has taken the cancellation branch of its
  \<open>select\<close>, no run sends a further value or changes \<open>n\<close>. From a state in which the deadline
  has fired, every run sends at most one further value: the one whose send had already
  started when the deadline fired. (Wall-clock time is not part of the model; the bound is
  in sends, not in seconds.)
\<close>

theorem no_send_after_cancel:
  assumes "exec es s = Some t"
  shows "(gen s = GRet \<or> gen s = GDone \<longrightarrow>
            sent_vals (gen_log t) = sent_vals (gen_log s) \<and> n t = n s \<and>
            (gen t = GRet \<or> gen t = GDone)) \<and>
         (ctxDone s \<longrightarrow> length (sent_vals (gen_log t)) \<le> length (sent_vals (gen_log s)) + 1)"
proof -
  have "length (sent_vals (gen_log t)) \<le> length (sent_vals (gen_log s)) + 1" if "ctxDone s"
  proof -
    from budget_exec [OF assms that] have "budget t \<le> budget s" ..
    then show ?thesis by (simp add: budget_def split: if_splits)
  qed
  with stopped_exec [OF assms] show ?thesis by blast
qed

theorem no_send_after_cancel_witness:
  "exec rest_late at_late = Some final_late \<and> ctxDone at_late \<and> gen at_late = GSend \<and>
   sent_vals (gen_log at_late) = [] \<and> sent_vals (gen_log final_late) = [1] \<and>
   length (sent_vals (gen_log final_late)) \<le> length (sent_vals (gen_log at_late)) + 1 \<and>
   exec shutdown2 at_ret \<noteq> None \<and> gen at_ret = GRet \<and>
   sent_vals (gen_log (the (exec shutdown2 at_ret))) = sent_vals (gen_log at_ret)"
proof -
  have a: "ctxDone at_late" "gen at_late = GSend" "sent_vals (gen_log at_late) = []"
    unfolding at_late_def by code_simp+
  have b: "sent_vals (gen_log final_late) = [1]"
    unfolding final_late_def at_late_def by code_simp
  have c: "exec shutdown2 at_ret \<noteq> None" "gen at_ret = GRet"
    unfolding at_ret_def by code_simp+
  then have d: "exec shutdown2 at_ret = Some (the (exec shutdown2 at_ret))" by simp
  from no_send_after_cancel [OF rest_late_exec] no_send_after_cancel [OF d] a b c rest_late_exec
  show ?thesis by simp
qed

subsection \<open>The workers' logs\<close>

lemma relay_snoc: "relay (vs @ [v]) = relay vs @ [Got v, Put v, Slept]"
  by (simp add: relay_def)

lemma relay_Nil: "relay [] = []"
  by (simp add: relay_def)

lemma wrk_shape_got: "wrk_shape l WRecv vs \<Longrightarrow> wrk_shape (l @ [Got v]) (WSend v) vs"
  by (simp add: wrk_shape_def)

lemma wrk_shape_put: "wrk_shape l (WSend v) vs \<Longrightarrow> wrk_shape (l @ [Put v]) WSleep (vs @ [v])"
  by (simp add: wrk_shape_def)

lemma wrk_shape_slept: "wrk_shape l WSleep vs \<Longrightarrow> wrk_shape (l @ [Slept]) WRecv vs"
proof -
  assume a: "wrk_shape l WSleep vs"
  then have "vs = butlast vs @ [last vs]" by (simp add: wrk_shape_def)
  then have "relay vs = relay (butlast vs) @ [Got (last vs), Put (last vs), Slept]"
    using relay_snoc [of "butlast vs" "last vs"] by simp
  with a show ?thesis by (simp add: wrk_shape_def)
qed

lemma wrk_shape_ret: "wrk_shape l WRecv vs \<Longrightarrow> wrk_shape l WRet vs"
  by (simp add: wrk_shape_def)

lemma wrk_shape_closed: "wrk_shape l WRet vs \<Longrightarrow> wrk_shape (l @ [ClosedOut]) WDone vs"
  by (simp add: wrk_shape_def)

lemma wlog_ok_step:
  assumes "step e s = Some t" and "wf s" and "wlog_ok s i"
  shows "wlog_ok t i"
  using assms(1)
proof (cases rule: step_cases)
  case gen
  then show ?thesis using assms(3)
    by (elim Generator_stepE) (simp_all add: wlog_ok_def)
next
  case (wrk k)
  show ?thesis
  proof (cases "k = i")
    case True
    from assms(3) obtain vs where vs: "wrk_shape (wrk_log s ! i) (workers s ! i) vs"
      by (auto simp: wlog_ok_def)
    from wrk(2) show ?thesis unfolding True
    proof (cases rule: Worker_stepE)
      case recv
      with vs assms(2) wrk_shape_got [of "wrk_log s ! i" vs "n s"] show ?thesis
        by (auto simp: wlog_ok_def wf_def log_at_def)
    next
      case closed
      with vs assms(2) wrk_shape_ret [of "wrk_log s ! i" vs] show ?thesis
        by (auto simp: wlog_ok_def wf_def)
    next
      case panic
      with assms(3) show ?thesis by (simp add: wlog_ok_def)
    next
      case slept
      with vs assms(2) wrk_shape_slept [of "wrk_log s ! i" vs] show ?thesis
        by (auto simp: wlog_ok_def wf_def log_at_def)
    next
      case ret
      with vs assms(2) wrk_shape_closed [of "wrk_log s ! i" vs] show ?thesis
        by (auto simp: wlog_ok_def wf_def log_at_def)
    qed
  next
    case False
    with wrk(2) assms(3) show ?thesis
      by (elim Worker_stepE) (simp_all add: wlog_ok_def log_at_def)
  qed
next
  case (col k)
  show ?thesis
  proof (cases "k = i")
    case True
    from assms(3) obtain vs where vs: "wrk_shape (wrk_log s ! i) (workers s ! i) vs"
      by (auto simp: wlog_ok_def)
    from col(2) show ?thesis unfolding True
    proof (cases rule: Collector_stepE)
      case (recv v)
      with vs assms(2) wrk_shape_put [of "wrk_log s ! i" v vs] show ?thesis
        by (auto simp: wlog_ok_def wf_def log_at_def)
    qed (use assms(3) in \<open>simp_all add: wlog_ok_def\<close>)
  next
    case False
    with col(2) assms(3) show ?thesis
      by (elim Collector_stepE) (simp_all add: wlog_ok_def log_at_def)
  qed
next
  case closer
  then show ?thesis using assms(3)
    by (elim Closer_stepE) (simp_all add: wlog_ok_def)
next
  case sink
  then show ?thesis using assms(3)
    by (elim Sink_stepE) (simp_all add: wlog_ok_def)
next
  case main
  then show ?thesis using assms(3) by (simp add: wlog_ok_def report_unchanged)
qed (use assms(3) in \<open>simp_all add: wlog_ok_def\<close>)

lemma wlog_ok_exec:
  assumes "exec es (init N) = Some s" and "i < N"
  shows "wlog_ok s i"
proof -
  have "wf s \<and> wlog_ok s i"
  proof (rule exec_invariant [where P = "\<lambda>s. wf s \<and> wlog_ok s i", OF _ assms(1)])
    show "wf t \<and> wlog_ok t i" if "step e u = Some t" and "wf u \<and> wlog_ok u i" for e u t
      using that wf_step [of e u t] wlog_ok_step [of e u t i] by simp
    have "wrk_shape [] WRecv []" by (simp add: wrk_shape_def relay_Nil)
    then have "wlog_ok (init N) i"
      using assms(2) unfolding wlog_ok_def by (auto simp: init_def)
    then show "wf (init N) \<and> wlog_ok (init N) i"
      by (simp add: wf_init)
  qed
  then show ?thesis ..
qed


lemma run_wret_exec: "exec run_wret (init 2) = Some at_wret"
proof -
  have "exec run_wret (init 2) \<noteq> None" by code_simp
  then show ?thesis by (simp add: at_wret_def)
qed

lemma run_half_exec: "exec run_half (init 2) = Some at_half"
proof -
  have "exec run_half (init 2) \<noteq> None" by code_simp
  then show ?thesis by (simp add: at_half_def)
qed

lemma safe_lane:
  assumes "exec es (init N) = Some s" and "i < N"
  shows "lane_ok s i" and "i < length (workers s)" and "i < length (collectors s)"
    and "i < length (amounts s)" and "i < length (outs_closed s)" and "\<not> panicked s"
  using safe_balance_exec [OF assms(1)] NumOut_exec [OF assms(1)] assms(2)
  by (simp_all add: safe_def wf_def)

subsection \<open>Closing the merged lane\<close>

lemma live_pos:
  assumes "k < length cs" and "cs ! k \<noteq> CDone"
  shows "0 < sum_list (map live cs)"
proof -
  from assms(2) have "live (cs ! k) = 1" by (cases "cs ! k") simp_all
  moreover have "live (cs ! k) \<le> sum_list (map live cs)"
    using assms(1) by (simp add: member_le_sum_list)
  ultimately show ?thesis by simp
qed

subsection \<open>Report and verification\<close>

lemma report_stdout:
  "stdout (report_and_verify s) =
     stdout s @ [[Str CountLabel, I64 (inputCount s), I64 (count s)],
                 [Str SumLabel, I64 (inputSum s), I64 (sum_v s)],
                 [Str LanesLabel, Slice (amounts s)]]"
  by (simp add: report_defs)

lemma report_sum_fail:
  "inputSum s \<noteq> sum_v s \<Longrightarrow>
     mainpc (report_and_verify s) = MExit 1 \<and>
     stderr (report_and_verify s) = stderr s @ [(SumFmt, [inputSum s, sum_v s])] \<and>
     inputCount (report_and_verify s) = inputCount s"
  by (simp add: report_defs)

lemma report_count_fail:
  "inputSum s = sum_v s \<Longrightarrow> inputCount s \<noteq> count s \<Longrightarrow>
     mainpc (report_and_verify s) = MExit 1 \<and>
     stderr (report_and_verify s) = stderr s @ [(CountFmt, [inputCount s, count s])] \<and>
     inputCount (report_and_verify s) = inputCount s"
  by (simp add: report_defs)

lemma report_lanes_fail:
  "inputSum s = sum_v s \<Longrightarrow> inputCount s = count s \<Longrightarrow> sum_list (amounts s) \<noteq> inputCount s \<Longrightarrow>
     mainpc (report_and_verify s) = MExit 1 \<and>
     stderr (report_and_verify s) = stderr s @ [(LanesFmt, [])] \<and>
     inputCount (report_and_verify s) = inputCount s - sum_list (amounts s)"
  by (auto simp: report_defs)

lemma report_ok:
  "inputSum s = sum_v s \<Longrightarrow> inputCount s = count s \<Longrightarrow> sum_list (amounts s) = inputCount s \<Longrightarrow>
     mainpc (report_and_verify s) = MExit 0 \<and>
     stderr (report_and_verify s) = stderr s \<and>
     inputCount (report_and_verify s) = 0"
  by (simp add: report_defs)

lemma quiet_step:
  assumes "step e s = Some t" and "stdout s = [] \<and> stderr s = []" and "mainpc t = MWait"
  shows "stdout t = [] \<and> stderr t = []"
  using assms(1)
proof (cases rule: step_cases)
  case gen
  then show ?thesis using assms(2) by (elim Generator_stepE) simp_all
next
  case (wrk k)
  then show ?thesis using assms(2) by (elim Worker_stepE) simp_all
next
  case (col k)
  then show ?thesis using assms(2) by (elim Collector_stepE) simp_all
next
  case closer
  then show ?thesis using assms(2) by (elim Closer_stepE) simp_all
next
  case sink
  then show ?thesis using assms(2) by (elim Sink_stepE) simp_all
next
  case main
  then show ?thesis using assms(3) report_exits [of s] by simp
qed (use assms(2) in simp_all)

lemma quiet_exec:
  assumes "exec es (init N) = Some s"
  shows "mainpc s = MWait \<longrightarrow> stdout s = [] \<and> stderr s = []"
proof (rule exec_invariant
    [where P = "\<lambda>s. mainpc s = MWait \<longrightarrow> stdout s = [] \<and> stderr s = []", OF _ assms])
  show "mainpc t = MWait \<longrightarrow> stdout t = [] \<and> stderr t = []"
    if "step e u = Some t" and "mainpc u = MWait \<longrightarrow> stdout u = [] \<and> stderr u = []" for e u t
    using that quiet_step [of e u t] step_running [of e u t] by blast
  show "mainpc (init N) = MWait \<longrightarrow> stdout (init N) = [] \<and> stderr (init N) = []"
    by (simp add: init_def)
qed

lemma exec_append:
  "exec (es @ fs) s = (case exec es s of None \<Rightarrow> None | Some t \<Rightarrow> exec fs t)"
  by (induction es arbitrary: s) (simp_all split: option.splits)

lemma mainpc_step:
  assumes "step e s = Some t" and "e \<noteq> MainG"
  shows "mainpc t = MWait"
  using assms(1)
proof (cases rule: step_cases)
  case gen
  then show ?thesis using step_running [OF assms(1)] by (elim Generator_stepE) simp_all
next
  case (wrk k)
  then show ?thesis using step_running [OF assms(1)] by (elim Worker_stepE) simp_all
next
  case (col k)
  then show ?thesis using step_running [OF assms(1)] by (elim Collector_stepE) simp_all
next
  case closer
  then show ?thesis using step_running [OF assms(1)] by (elim Closer_stepE) simp_all
next
  case sink
  then show ?thesis using step_running [OF assms(1)] by (elim Sink_stepE) simp_all
next
  case main
  then show ?thesis using assms(2) by simp
qed (use step_running [OF assms(1)] in simp_all)

lemma exited_is_report:
  assumes "exec es (init N) = Some s" and "mainpc s \<noteq> MWait"
  obtains fs u where "es = fs @ [MainG]" and "exec fs (init N) = Some u" and "joined u"
    and "s = report_and_verify u"
proof (cases es rule: rev_cases)
  case Nil
  with assms have "mainpc (init N) \<noteq> MWait" by simp
  then show ?thesis by (simp add: init_def)
next
  case (snoc fs e)
  with assms(1) obtain u where u: "exec fs (init N) = Some u" "step e u = Some s"
    by (auto simp: exec_append split: option.splits)
  from mainpc_step [OF u(2)] assms(2) have e: "e = MainG" by blast
  with u(2) step_running [OF u(2)] have "wg1 u = 0" "s = report_and_verify u" "mainpc u = MWait"
    by (auto simp: step_def Main_step_def split: if_splits)
  with that [of fs u] snoc e u(1) show ?thesis by (simp add: joined_def)
qed


lemma run3_main_exec: "exec run3_main (init 2) = Some exit3"
proof -
  have "exec run3_main (init 2) \<noteq> None" by code_simp
  then show ?thesis by (simp add: exit3_def)
qed



text \<open>
  C8. The report writes three lines after what standard output held before: the label
  and the two counts, the label and the two sums, the label and the slice \<open>amounts\<close>, in
  this order and whatever the checks decide afterwards. In a run of the pipeline nothing
  is written before \<open>main\<close> passes \<open>wg1.Wait()\<close>; at the join the next action of \<open>main\<close> is
  enabled and is the report; and once the process has ended standard output is exactly
  these three lines, the third holding \<open>N\<close> integers in lane order.
\<close>

theorem report_three_lines:
  assumes "exec es (init N) = Some s"
  shows "stdout (report_and_verify u) =
           stdout u @ [[Str CountLabel, I64 (inputCount u), I64 (count u)],
                       [Str SumLabel, I64 (inputSum u), I64 (sum_v u)],
                       [Str LanesLabel, Slice (amounts u)]] \<and>
         (mainpc s = MWait \<longrightarrow> stdout s = []) \<and>
         (joined s \<longrightarrow>
            step MainG s = Some (report_and_verify s) \<and>
            stdout (report_and_verify s) =
              [[Str CountLabel, I64 (inputCount s), I64 (count s)],
               [Str SumLabel, I64 (inputSum s), I64 (sum_v s)],
               [Str LanesLabel, Slice (amounts s)]] \<and>
            length (amounts s) = N) \<and>
         (mainpc s \<noteq> MWait \<longrightarrow>
            (\<exists>a. stdout s = [[Str CountLabel, I64 a, I64 (count s)],
                             [Str SumLabel, I64 (inputSum s), I64 (sum_v s)],
                             [Str LanesLabel, Slice (amounts s)]]) \<and>
            length (stdout s) = 3 \<and> length (amounts s) = N)"
proof -
  from safe_balance_exec [OF assms] NumOut_exec [OF assms]
  have len: "length (amounts s) = N" and np: "\<not> panicked s"
    by (simp_all add: safe_def wf_def)
  have j: "step MainG s = Some (report_and_verify s) \<and>
           stdout (report_and_verify s) =
              [[Str CountLabel, I64 (inputCount s), I64 (count s)],
               [Str SumLabel, I64 (inputSum s), I64 (sum_v s)],
               [Str LanesLabel, Slice (amounts s)]] \<and>
           length (amounts s) = N"
    if "joined s"
    using that quiet_exec [OF assms] len np
    by (simp add: joined_def step_def Main_step_def report_stdout)
  have "(\<exists>a. stdout s = [[Str CountLabel, I64 a, I64 (count s)],
                          [Str SumLabel, I64 (inputSum s), I64 (sum_v s)],
                          [Str LanesLabel, Slice (amounts s)]]) \<and>
        length (stdout s) = 3 \<and> length (amounts s) = N"
    if "mainpc s \<noteq> MWait"
  proof -
    from exited_is_report [OF assms that] obtain fs v
      where v: "exec fs (init N) = Some v" "joined v" "s = report_and_verify v" by blast
    from quiet_exec [OF v(1)] v(2) have q: "stdout v = []" by (simp add: joined_def)
    from safe_balance_exec [OF v(1)] NumOut_exec [OF v(1)] have "length (amounts v) = N"
      by (simp add: safe_def wf_def)
    with q v(3) show ?thesis by (simp add: report_stdout report_unchanged)
  qed
  with quiet_exec [OF assms] report_stdout [of u] j show ?thesis by blast
qed

theorem report_three_lines_witness:
  "exec run3_main (init 2) = Some exit3 \<and> mainpc exit3 \<noteq> MWait \<and>
   stdout exit3 = [[Str CountLabel, I64 3, I64 3], [Str SumLabel, I64 6, I64 6],
                   [Str LanesLabel, Slice [2, 1]]] \<and>
   length (stdout exit3) = 3 \<and> length (amounts exit3) = 2 \<and>
   exec run3 (init 2) = Some final3 \<and> mainpc final3 = MWait \<and> stdout final3 = [] \<and>
   joined final3 \<and> step MainG final3 = Some (report_and_verify final3) \<and>
   length (stdout (report_and_verify final3)) = 3"
proof -
  have a: "mainpc exit3 \<noteq> MWait" "count exit3 = 3" "inputSum exit3 = 6" "sum_v exit3 = 6"
    "amounts exit3 = [2, 1]" "stdout exit3 ! 0 ! 1 = I64 3"
    unfolding exit3_def by code_simp+
  have b: "mainpc final3 = MWait"
    unfolding final3_def by code_simp
  from report_three_lines [OF run3_main_exec] report_three_lines [OF run3_exec] a b
    run3_main_exec run3_exec run3_joined
  show ?thesis by auto
qed

text \<open>
  C10. The report prints the three lines from the counters as they are at that moment,
  whatever the checks decide. Only when the sums and the counts agree is \<open>inputCount\<close>
  changed: every element of \<open>amounts\<close> is subtracted from it, and the process ends with
  status 0 exactly when the result is 0. In a run of the pipeline with \<open>N \<ge> 1\<close> the process
  ends with status 0 and no diagnostic, \<open>inputCount\<close> is 0 afterwards, and the first line
  printed holds the source count as it was before, which is the sink count.
\<close>

theorem partition_check_destructive:
  assumes "exec es (init N) = Some s" and "1 \<le> N"
  shows "stdout (report_and_verify u) =
           stdout u @ [[Str CountLabel, I64 (inputCount u), I64 (count u)],
                       [Str SumLabel, I64 (inputSum u), I64 (sum_v u)],
                       [Str LanesLabel, Slice (amounts u)]] \<and>
         (inputSum u = sum_v u \<and> inputCount u = count u \<longrightarrow>
            inputCount (report_and_verify u) = inputCount u - sum_list (amounts u)) \<and>
         (inputSum u \<noteq> sum_v u \<or> inputCount u \<noteq> count u \<longrightarrow>
            inputCount (report_and_verify u) = inputCount u) \<and>
         (mainpc (report_and_verify u) = MExit 0 \<longrightarrow> inputCount (report_and_verify u) = 0) \<and>
         (mainpc s \<noteq> MWait \<longrightarrow>
            mainpc s = MExit 0 \<and> stderr s = [] \<and> inputCount s = 0 \<and>
            stdout s = [[Str CountLabel, I64 (count s), I64 (count s)],
                        [Str SumLabel, I64 (sum_v s), I64 (sum_v s)],
                        [Str LanesLabel, Slice (amounts s)]] \<and>
            sum_list (amounts s) = count s)"
proof -
  have f1: "inputCount (report_and_verify u) = inputCount u - sum_list (amounts u)"
    if "inputSum u = sum_v u" and "inputCount u = count u"
    using that report_lanes_fail [of u] report_ok [of u] by (cases "sum_list (amounts u) = inputCount u") simp_all
  have f2: "inputCount (report_and_verify u) = inputCount u"
    if "inputSum u \<noteq> sum_v u \<or> inputCount u \<noteq> count u"
    using that report_sum_fail [of u] report_count_fail [of u] by blast
  have f3: "inputCount (report_and_verify u) = 0" if "mainpc (report_and_verify u) = MExit 0"
    using that report_sum_fail [of u] report_count_fail [of u] report_lanes_fail [of u]
      report_ok [of u]
    by (metis main_pc.inject zero_neq_one)
  have p: "mainpc s = MExit 0 \<and> stderr s = [] \<and> inputCount s = 0 \<and>
           stdout s = [[Str CountLabel, I64 (count s), I64 (count s)],
                       [Str SumLabel, I64 (sum_v s), I64 (sum_v s)],
                       [Str LanesLabel, Slice (amounts s)]] \<and>
           sum_list (amounts s) = count s"
    if "mainpc s \<noteq> MWait"
  proof -
    from exited_is_report [OF assms(1) that] obtain fs v
      where v: "exec fs (init N) = Some v" "joined v" "s = report_and_verify v" by blast
    from quiet_exec [OF v(1)] v(2) have q: "stdout v = []" "stderr v = []"
      by (simp_all add: joined_def)
    note j = joined_totals [OF v(1) assms(2) v(2)]
    from report_ok [OF j(2) j(1) j(3)] q j v(3) show ?thesis
      by (simp add: report_stdout report_unchanged)
  qed
  from report_stdout [of u] f1 f2 f3 p show ?thesis by blast
qed

theorem partition_check_destructive_witness:
  "exec run3_main (init 2) = Some exit3 \<and> (1::nat) \<le> 2 \<and> mainpc exit3 \<noteq> MWait \<and>
   inputCount final3 = 3 \<and> inputCount exit3 = 0 \<and> mainpc exit3 = MExit 0 \<and>
   stdout exit3 = [[Str CountLabel, I64 3, I64 3], [Str SumLabel, I64 6, I64 6],
                   [Str LanesLabel, Slice [2, 1]]] \<and>
   inputSum bad_lanes = sum_v bad_lanes \<and> inputCount bad_lanes = count bad_lanes \<and>
   inputCount (report_and_verify bad_lanes) = 1 \<and>
   inputSum bad_sum \<noteq> sum_v bad_sum \<and> inputCount (report_and_verify bad_sum) = 3 \<and>
   stdout (report_and_verify bad_sum) =
     [[Str CountLabel, I64 3, I64 3], [Str SumLabel, I64 6, I64 5], [Str LanesLabel, Slice [2, 1]]]"
proof -
  have a: "mainpc exit3 \<noteq> MWait" "count exit3 = 3" "sum_v exit3 = 6" "amounts exit3 = [2, 1]"
    unfolding exit3_def by code_simp+
  have b: "inputCount final3 = 3"
    unfolding final3_def by code_simp
  have c: "inputSum bad_lanes = sum_v bad_lanes" "inputCount bad_lanes = count bad_lanes"
    "inputCount bad_lanes = 3" "sum_list (amounts bad_lanes) = 2"
    by (simp_all add: bad_lanes_def init_def)
  have d: "inputSum bad_sum \<noteq> sum_v bad_sum" "inputCount bad_sum = 3" "stdout bad_sum = []"
    "count bad_sum = 3" "inputSum bad_sum = 6" "sum_v bad_sum = 5" "amounts bad_sum = [2, 1]"
    by (simp_all add: bad_sum_def init_def)
  from partition_check_destructive [OF run3_main_exec, of bad_lanes]
    partition_check_destructive [OF run3_main_exec, of bad_sum] a b c d run3_main_exec
  show ?thesis by simp
qed

subsection \<open>Lane counters as natural numbers\<close>

lemma sint_small:
  fixes w :: int64
  assumes "unat w < 2 ^ 63"
  shows "sint w = int (unat w)"
proof -
  from assms have "int (unat w) < int (2 ^ 63)" by (simp only: of_nat_less_iff)
  then have "uint w < 2 ^ 63" by (simp only: uint_nat of_nat_power of_nat_numeral)
  moreover have "- (2 ^ 63) \<le> uint w"
    by (rule order_trans [of _ 0]) simp_all
  ultimately have st: "signed_take_bit 63 (uint w) = uint w"
    by (rule signed_take_bit_int_eq_self [rotated])
  have l: "LENGTH(64) - Suc 0 = 63" by simp
  have "sint w = signed_take_bit 63 (uint w)"
    using sint_uint [of w] by (simp only: l)
  also note st
  also have "uint w = int (unat w)" by (rule uint_nat)
  finally show ?thesis .
qed

lemma unat_succ_le: "unat (a + 1 :: int64) \<le> unat a + 1"
  by (metis (mono_tags, lifting) of_nat_add of_nat_le_iff of_nat_unat uint_add_le unsigned_1)

lemma unat_sum_list:
  fixes ws :: "int64 list"
  assumes "sum_list (map unat ws) < 2 ^ 64"
  shows "unat (sum_list ws) = sum_list (map unat ws)"
  using assms
proof (induction ws)
  case Nil
  then show ?case by simp
next
  case (Cons w ws)
  then have "unat (sum_list ws) = sum_list (map unat ws)" by simp
  moreover from Cons.prems have "unat w + unat (sum_list ws) < 2 ^ LENGTH(64)"
    using calculation by simp
  then have "unat (w + sum_list ws) = unat w + unat (sum_list ws)"
    by (simp only: unat_add_lem)
  ultimately show ?case by simp
qed

lemma sum_list_map_same:
  fixes f :: "'a \<Rightarrow> nat"
  shows "k < length xs \<Longrightarrow> f x = f (xs ! k) \<Longrightarrow> sum_list (map f (xs[k := x])) = sum_list (map f xs)"
  using sum_list_map_update [of k xs f x] by simp

lemma flow_step:
  assumes "step e s = Some t" and "wf s" and "flow s"
  shows "flow t"
  using assms(1)
proof (cases rule: step_cases)
  case gen
  then show ?thesis using assms(3)
    by (elim Generator_stepE) (simp_all add: flow_def sent_vals_append)
next
  case (wrk k)
  from this(2) show ?thesis
  proof (cases rule: Worker_stepE)
    case recv
    with sum_list_map_update [of k "workers s" wrk_busy "WSend (n s)"] assms(3)
    show ?thesis by (simp add: flow_def sent_vals_append)
  qed (use assms(3) in \<open>simp_all add: flow_def sum_list_map_same\<close>)
next
  case (col k)
  from this(2) show ?thesis
  proof (cases rule: Collector_stepE)
    case (recv v)
    with sum_list_map_update [of k "workers s" wrk_busy WSleep]
      sum_list_map_update [of k "collectors s" col_busy "CLock v"] assms(3)
    show ?thesis by (simp add: flow_def)
  next
    case (inc v)
    with sum_list_map_update [of k "collectors s" col_busy "CUnlock v"]
      sum_list_map_update [of k "amounts s" unat "amounts s ! k + 1"]
      unat_succ_le [of "amounts s ! k"] assms(3)
    show ?thesis by (simp add: flow_def)
  qed (use assms(3) in \<open>simp_all add: flow_def sum_list_map_same\<close>)
next
  case closer
  then show ?thesis using assms(3)
    by (elim Closer_stepE) (simp_all add: flow_def)
next
  case sink
  then show ?thesis using assms(3)
    by (elim Sink_stepE) (simp_all add: flow_def)
next
  case main
  then show ?thesis using assms(3) by (simp add: flow_def report_unchanged)
qed (use assms(3) in \<open>simp_all add: flow_def\<close>)

lemma flow_exec:
  assumes "exec es (init N) = Some s"
  shows "flow s"
proof -
  have "wf s \<and> flow s"
  proof (rule exec_invariant [where P = "\<lambda>s. wf s \<and> flow s", OF _ assms])
    show "wf t \<and> flow t" if "step e u = Some t" and "wf u \<and> flow u" for e u t
      using that wf_step [of e u t] flow_step [of e u t] by simp
    have "flow (init N)"
      by (simp add: flow_def init_def sum_list_replicate_zero)
    then show "wf (init N) \<and> flow (init N)"
      by (simp add: wf_init)
  qed
  then show ?thesis ..
qed


lemma sum_list_int_unat:
  fixes ws :: "int64 list"
  assumes "\<forall>w \<in> set ws. sint w = int (unat w)"
  shows "sum_list (map sint ws) = int (sum_list (map unat ws))"
  using assms by (induction ws) simp_all

lemma lanes_nonneg:
  fixes ws :: "int64 list"
  assumes "sum_list (map unat ws) < 2 ^ 63"
  shows "\<forall>w \<in> set ws. sint w = int (unat w)"
    and "sint (sum_list ws) = int (sum_list (map unat ws))"
proof -
  show a: "\<forall>w \<in> set ws. sint w = int (unat w)"
  proof
    fix w assume "w \<in> set ws"
    then have "unat w \<le> sum_list (map unat ws)" by (simp add: member_le_sum_list)
    from this assms have "unat w < 2 ^ 63" by (rule le_less_trans)
    then show "sint w = int (unat w)" by (rule sint_small)
  qed
  have "(2::nat) ^ 63 < 2 ^ 64" by (rule power_strict_increasing) simp_all
  with assms have "sum_list (map unat ws) < 2 ^ 64" by (rule less_trans)
  then have u: "unat (sum_list ws) = sum_list (map unat ws)" by (rule unat_sum_list)
  with assms have "unat (sum_list ws) < 2 ^ 63" by (simp only:)
  then have "sint (sum_list ws) = int (unat (sum_list ws))" by (rule sint_small)
  with u show "sint (sum_list ws) = int (sum_list (map unat ws))" by (simp only:)
qed

text \<open>
  C2. At the join the lane counters sum to the source count (in \<open>int64\<close> arithmetic, as
  line 126 computes it), and there is one counter for each of the \<open>N\<close> lanes. If fewer than
  \<open>2 ^ 63\<close> values were sent, as in every run that the deadline of one second and the pause
  of one millisecond allow, no counter has wrapped around: every counter is non-negative
  and the counters sum to the source count as integers too.
\<close>

theorem lane_partition:
  assumes "exec es (init N) = Some s" and "1 \<le> N" and "joined s"
  shows "sum_list (amounts s) = inputCount s \<and> length (amounts s) = N \<and>
         (length (sent_vals (gen_log s)) < 2 ^ 63 \<longrightarrow>
            (\<forall>i < N. 0 \<le> sint (amounts s ! i)) \<and>
            sum_list (map sint (amounts s)) = sint (inputCount s))"
proof -
  note j = joined_totals [OF assms]
  from safe_balance_exec [OF assms(1)] NumOut_exec [OF assms(1)]
  have len: "length (amounts s) = N" by (simp add: safe_def wf_def)
  have "(\<forall>i < N. 0 \<le> sint (amounts s ! i)) \<and>
        sum_list (map sint (amounts s)) = sint (inputCount s)"
    if b: "length (sent_vals (gen_log s)) < 2 ^ 63"
  proof -
    from flow_exec [OF assms(1)]
    have "sum_list (map unat (amounts s)) \<le> length (sent_vals (gen_log s))"
      by (simp add: flow_def)
    then have "sum_list (map unat (amounts s)) < 2 ^ 63" using b by (rule le_less_trans)
    note l = lanes_nonneg [OF this]
    have "0 \<le> sint (amounts s ! i)" if "i < N" for i
    proof -
      from that len have "amounts s ! i \<in> set (amounts s)" by simp
      with l(1) have "sint (amounts s ! i) = int (unat (amounts s ! i))" by blast
      then show ?thesis by simp
    qed
    moreover have "sum_list (map sint (amounts s)) = sint (inputCount s)"
      using sum_list_int_unat [OF l(1)] l(2) j(3) by simp
    ultimately show ?thesis by blast
  qed
  with j(3) len show ?thesis by blast
qed

theorem lane_partition_witness:
  "exec run3 (init 2) = Some final3 \<and> (1::nat) \<le> 2 \<and> joined final3 \<and>
   length (sent_vals (gen_log final3)) < 2 ^ 63 \<and>
   amounts final3 = [2, 1] \<and> inputCount final3 = 3 \<and>
   sum_list (amounts final3) = inputCount final3 \<and>
   0 \<le> sint (amounts final3 ! 0) \<and> 0 \<le> sint (amounts final3 ! 1) \<and>
   sum_list (map sint (amounts final3)) = sint (inputCount final3)"
proof -
  have a: "length (sent_vals (gen_log final3)) = 3" "amounts final3 = [2, 1]"
    "inputCount final3 = 3"
    unfolding final3_def by code_simp+
  have b: "(3::nat) < 2 ^ 63" by simp
  from lane_partition [OF run3_exec _ run3_joined] a b run3_exec run3_joined
  show ?thesis by simp
qed

subsection \<open>A complete run exists for every pool size\<close>

text \<open>
  The hypotheses of the theorems above are met in general, not only by the sample runs:
  for every pool size \<open>N \<ge> 1\<close> and every number \<open>k\<close> of values there is a run that sends
  \<open>k\<close> values and reaches the join. With \<open>k = 0\<close> the deadline fires before the first
  \<open>select\<close>. Along it the generator sends and counts \<open>1, ..., k\<close> and closes its lane,
  worker 0 relays every value, every worker closes its lane, and the merged lane is closed
  once.
\<close>

lemmas step_defs = step_def Generator_step_def Worker_step_def Collector_step_def
  Closer_step_def Sink_step_def Main_step_def log_at_def panic_def

lemma phase_init: "0 < N \<Longrightarrow> phase (init N) False 0 0"
  by (simp add: phase_def wf_def init_def)

lemma trace_init: "trace (init N) 0 False 0"
  by (simp add: trace_def init_def relay_Nil)

lemma item_effect:
  assumes "phase s False 0 0"
  shows "\<exists>t. exec (item 0) s = Some t \<and> phase t False 0 0 \<and> count t = count s + 1 \<and>
             NumOut t = NumOut s \<and> n t = n s + 1 \<and>
             gen_log t = gen_log s @ [Sent (n s), Called (n s)] \<and>
             (\<forall>j < NumOut s. wrk_log t ! j =
                (if j = 0 then wrk_log s ! 0 @ [Got (n s), Put (n s), Slept] else wrk_log s ! j)) \<and>
             chOut_closes t = chOut_closes s"
  using assms
  by (simp add: item_def phase_def wf_def step_defs nth_list_update)

lemma phase_item:
  assumes "phase s False 0 0" and "trace s m False 0"
  shows "\<exists>t. exec (item 0) s = Some t \<and> phase t False 0 0 \<and> trace t (Suc m) False 0 \<and>
             count t = count s + 1 \<and> NumOut t = NumOut s"
proof -
  from item_effect [OF assms(1)] obtain t
    where t: "exec (item 0) s = Some t" "phase t False 0 0" "count t = count s + 1"
      "NumOut t = NumOut s" "n t = n s + 1"
      "gen_log t = gen_log s @ [Sent (n s), Called (n s)]"
      "\<forall>j < NumOut s. wrk_log t ! j =
         (if j = 0 then wrk_log s ! 0 @ [Got (n s), Put (n s), Slept] else wrk_log s ! j)"
      "chOut_closes t = chOut_closes s"
    by blast
  from assms(1) have pos: "0 < NumOut s" by (simp add: phase_def)
  from assms(2) have s: "n s = of_nat (Suc m)" "gen_log s = gen_cycles m"
    "\<forall>j < NumOut s. wrk_log s ! j = (if j = 0 then relay (map of_nat [1 ..< Suc m]) else [])"
    "chOut_closes s = 0"
    by (simp_all add: trace_def)
  have "trace t (Suc m) False 0"
    unfolding trace_def using t(4-8) s pos
    by (simp add: relay_def)
  with t show ?thesis by blast
qed

lemma phase_items:
  assumes "phase s False 0 0" and "trace s m False 0"
  shows "\<exists>t. exec (concat (replicate k (item 0))) s = Some t \<and> phase t False 0 0 \<and>
             trace t (m + k) False 0 \<and> count t = count s + of_nat k \<and> NumOut t = NumOut s"
  using assms
proof (induction k arbitrary: s m)
  case 0
  then show ?case by simp
next
  case (Suc k)
  from phase_item [OF Suc.prems] obtain u
    where u: "exec (item 0) s = Some u" "phase u False 0 0" "trace u (Suc m) False 0"
      "count u = count s + 1" "NumOut u = NumOut s" by blast
  from Suc.IH [OF u(2,3)] obtain t
    where t: "exec (concat (replicate k (item 0))) u = Some t" "phase t False 0 0"
      "trace t (Suc m + k) False 0" "count t = count u + of_nat k" "NumOut t = NumOut u"
    by blast
  from u t show ?case by (simp add: exec_append)
qed

lemma phase_cancel:
  assumes "phase s False 0 0" and "trace s m False 0"
  shows "\<exists>t. exec [Deadline, Gen, Gen] s = Some t \<and> phase t True 0 0 \<and> trace t m True 0 \<and>
             count t = count s \<and> NumOut t = NumOut s"
  using assms by (simp add: phase_def trace_def wf_def step_defs)

lemma phase_worker:
  assumes "phase s True a 0" and "trace s m True a" and "a < NumOut s"
  shows "\<exists>t. exec [Wrk a, Wrk a] s = Some t \<and> phase t True (Suc a) 0 \<and>
             trace t m True (Suc a) \<and> count t = count s \<and> NumOut t = NumOut s"
  using assms
  by (auto simp: phase_def trace_def wf_def step_defs nth_list_update less_Suc_eq)

lemma phase_workers:
  assumes "phase s True a 0" and "trace s m True a" and "a \<le> NumOut s"
  shows "\<exists>t. exec (concat (map (\<lambda>i. [Wrk i, Wrk i]) [a ..< NumOut s])) s = Some t \<and>
             phase t True (NumOut s) 0 \<and> trace t m True (NumOut s) \<and>
             count t = count s \<and> NumOut t = NumOut s"
  using assms
proof (induction d \<equiv> "NumOut s - a" arbitrary: s a)
  case 0
  then show ?case by simp
next
  case (Suc d)
  from Suc.hyps(2) have lt: "a < NumOut s" by simp
  from phase_worker [OF Suc.prems(1,2) lt] obtain u
    where u: "exec [Wrk a, Wrk a] s = Some u" "phase u True (Suc a) 0"
      "trace u m True (Suc a)" "count u = count s" "NumOut u = NumOut s" by blast
  from Suc.hyps(2) lt u(5) have "d = NumOut u - Suc a" "Suc a \<le> NumOut u" by simp_all
  from Suc.hyps(1) [OF this(1) u(2,3) this(2)] u(5) obtain t
    where t: "exec (concat (map (\<lambda>i. [Wrk i, Wrk i]) [Suc a ..< NumOut s])) u = Some t"
      "phase t True (NumOut s) 0" "trace t m True (NumOut s)" "count t = count u"
      "NumOut t = NumOut s" by auto
  from lt have "[a ..< NumOut s] = a # [Suc a ..< NumOut s]" by (rule upt_conv_Cons)
  then have "concat (map (\<lambda>i. [Wrk i, Wrk i]) [a ..< NumOut s]) =
             [Wrk a, Wrk a] @ concat (map (\<lambda>i. [Wrk i, Wrk i]) [Suc a ..< NumOut s])"
    by simp
  with u t show ?case by (simp only: exec_append option.case) simp
qed

lemma phase_collector:
  assumes "phase s True (NumOut s) b" and "trace s m True (NumOut s)" and "b < NumOut s"
  shows "\<exists>t. exec [Col b, Col b] s = Some t \<and> phase t True (NumOut t) (Suc b) \<and>
             trace t m True (NumOut t) \<and> count t = count s \<and> NumOut t = NumOut s"
  using assms
  by (auto simp: phase_def trace_def wf_def step_defs nth_list_update less_Suc_eq)

lemma phase_collectors:
  assumes "phase s True (NumOut s) b" and "trace s m True (NumOut s)" and "b \<le> NumOut s"
  shows "\<exists>t. exec (concat (map (\<lambda>i. [Col i, Col i]) [b ..< NumOut s])) s = Some t \<and>
             phase t True (NumOut s) (NumOut s) \<and> trace t m True (NumOut s) \<and>
             count t = count s \<and> NumOut t = NumOut s"
  using assms
proof (induction d \<equiv> "NumOut s - b" arbitrary: s b)
  case 0
  then show ?case by simp
next
  case (Suc d)
  from Suc.hyps(2) have lt: "b < NumOut s" by simp
  from phase_collector [OF Suc.prems(1,2) lt] obtain u
    where u: "exec [Col b, Col b] s = Some u" "phase u True (NumOut u) (Suc b)"
      "trace u m True (NumOut u)" "count u = count s" "NumOut u = NumOut s" by blast
  from Suc.hyps(2) lt u(5) have "d = NumOut u - Suc b" "Suc b \<le> NumOut u" by simp_all
  from Suc.hyps(1) [OF this(1) u(2,3) this(2)] u(5) obtain t
    where t: "exec (concat (map (\<lambda>i. [Col i, Col i]) [Suc b ..< NumOut s])) u = Some t"
      "phase t True (NumOut s) (NumOut s)" "trace t m True (NumOut s)" "count t = count u"
      "NumOut t = NumOut s" by auto
  from lt have "[b ..< NumOut s] = b # [Suc b ..< NumOut s]" by (rule upt_conv_Cons)
  then have "concat (map (\<lambda>i. [Col i, Col i]) [b ..< NumOut s]) =
             [Col b, Col b] @ concat (map (\<lambda>i. [Col i, Col i]) [Suc b ..< NumOut s])"
    by simp
  with u t show ?case by (simp only: exec_append option.case) simp
qed

lemma phase_join:
  assumes "phase s True (NumOut s) (NumOut s)" and "trace s m True (NumOut s)"
  shows "\<exists>t. exec [Closer, Closer, Sink, Sink] s = Some t \<and> joined t \<and> count t = count s \<and>
             NumOut t = NumOut s \<and> gen t = GDone \<and> chIn_closed t \<and> chOut_closed t \<and>
             gen_log t = gen_log s \<and> wrk_log t = wrk_log s \<and> workers t = workers s \<and>
             outs_closed t = outs_closed s \<and> chOut_closes t = 1"
  using assms by (simp add: phase_def trace_def step_defs joined_def)

lemma complete_run_trace:
  assumes "1 \<le> N"
  shows "\<exists>s. exec (complete_run N k) (init N) = Some s \<and> joined s \<and> count s = of_nat k \<and>
             gen s = GDone \<and> chIn_closed s \<and> gen_log s = gen_cycles k @ [ClosedIn] \<and>
             (\<forall>j < N. workers s ! j = WDone \<and> outs_closed s ! j \<and>
                wrk_log s ! j = (if j = 0 then relay (map of_nat [1 ..< Suc k]) else [])
                                @ [ClosedOut]) \<and>
             chOut_closed s \<and> chOut_closes s = 1"
proof -
  from assms have "phase (init N) False 0 0" by (simp add: phase_init)
  from phase_items [OF this trace_init, of k] obtain s1
    where s1: "exec (concat (replicate k (item 0))) (init N) = Some s1" "phase s1 False 0 0"
      "trace s1 k False 0" "count s1 = of_nat k" "NumOut s1 = N"
    by (auto simp: init_def)
  from phase_cancel [OF s1(2,3)] obtain s2
    where s2: "exec [Deadline, Gen, Gen] s1 = Some s2" "phase s2 True 0 0" "trace s2 k True 0"
      "count s2 = count s1" "NumOut s2 = NumOut s1" by blast
  from phase_workers [OF s2(2,3)] s2(5) s1(5) obtain s3
    where s3: "exec (concat (map (\<lambda>i. [Wrk i, Wrk i]) [0 ..< N])) s2 = Some s3"
      "phase s3 True N 0" "trace s3 k True N" "count s3 = count s2" "NumOut s3 = N" by auto
  from s3(2,3,5) have "phase s3 True (NumOut s3) 0" "trace s3 k True (NumOut s3)" by simp_all
  from phase_collectors [OF this] s3(5) obtain s4
    where s4: "exec (concat (map (\<lambda>i. [Col i, Col i]) [0 ..< N])) s3 = Some s4"
      "phase s4 True N N" "trace s4 k True N" "count s4 = count s3" "NumOut s4 = N" by auto
  from s4(2,3,5) have p4: "phase s4 True (NumOut s4) (NumOut s4)" "trace s4 k True (NumOut s4)"
    by simp_all
  from phase_join [OF this] obtain s5
    where s5: "exec [Closer, Closer, Sink, Sink] s4 = Some s5" "joined s5" "count s5 = count s4"
      "NumOut s5 = NumOut s4" "gen s5 = GDone" "chIn_closed s5" "chOut_closed s5"
      "gen_log s5 = gen_log s4" "wrk_log s5 = wrk_log s4" "workers s5 = workers s4"
      "outs_closed s5 = outs_closed s4" "chOut_closes s5 = 1"
    by blast
  from s1 s2 s3 s4 s5 have run: "exec (complete_run N k) (init N) = Some s5"
    by (simp only: complete_run_def exec_append option.case)
  from p4 s4(5) have lanes: "\<forall>j < N. workers s4 ! j = WDone \<and> outs_closed s4 ! j \<and>
      wrk_log s4 ! j = (if j = 0 then relay (map of_nat [1 ..< Suc k]) else []) @ [ClosedOut]"
    by (simp add: phase_def trace_def)
  from p4(2) have "gen_log s4 = gen_cycles k @ [ClosedIn]" by (simp add: trace_def)
  with run lanes s5 s4 s3 s2 s1 show ?thesis by simp
qed

lemma pipeline_completes:
  assumes "1 \<le> N"
  shows "\<exists>s. exec (complete_run N k) (init N) = Some s \<and> joined s \<and> count s = of_nat k"
  using complete_run_trace [OF assms, of k] by blast


subsection \<open>The generator produces and closes\<close>

lemma sample_exec:
  "exec [] (init 2) = Some (init 2)"
  "exec (run_fn @ [Gen]) (init 2) = Some at_fn2"
  "exec (run_fn @ [Gen, Gen]) (init 2) = Some at_inc"
  "exec (run_fn @ [Gen, Gen, Gen]) (init 2) = Some at_sel"
  "exec (run_fn @ [Col 0]) (init 2) = Some at_sleep"
  "exec (run_ret @ [Gen]) (init 2) = Some at_closed"
  "exec (run_wret @ [Wrk 0, Col 0]) (init 2) = Some at_cret"
  "exec (run_wret @ [Wrk 0]) (init 2) = Some at_wdone"
  "exec run_gate (init 2) = Some at_gate"
  "exec (run_gate @ [Closer]) (init 2) = Some at_close"
  "exec (run_gate @ [Closer, Closer]) (init 2) = Some at_kdone"
proof -
  show "exec [] (init 2) = Some (init 2)" by simp
  have "exec (run_fn @ [Gen]) (init 2) \<noteq> None" by code_simp
  then show "exec (run_fn @ [Gen]) (init 2) = Some at_fn2" by (simp add: at_fn2_def)
  have "exec (run_fn @ [Gen, Gen]) (init 2) \<noteq> None" by code_simp
  then show "exec (run_fn @ [Gen, Gen]) (init 2) = Some at_inc" by (simp add: at_inc_def)
  have "exec (run_fn @ [Gen, Gen, Gen]) (init 2) \<noteq> None" by code_simp
  then show "exec (run_fn @ [Gen, Gen, Gen]) (init 2) = Some at_sel" by (simp add: at_sel_def)
  have "exec (run_fn @ [Col 0]) (init 2) \<noteq> None" by code_simp
  then show "exec (run_fn @ [Col 0]) (init 2) = Some at_sleep" by (simp add: at_sleep_def)
  have "exec (run_ret @ [Gen]) (init 2) \<noteq> None" by code_simp
  then show "exec (run_ret @ [Gen]) (init 2) = Some at_closed" by (simp add: at_closed_def)
  have "exec (run_wret @ [Wrk 0, Col 0]) (init 2) \<noteq> None" by code_simp
  then show "exec (run_wret @ [Wrk 0, Col 0]) (init 2) = Some at_cret" by (simp add: at_cret_def)
  have "exec (run_wret @ [Wrk 0]) (init 2) \<noteq> None" by code_simp
  then show "exec (run_wret @ [Wrk 0]) (init 2) = Some at_wdone" by (simp add: at_wdone_def)
  have "exec run_gate (init 2) \<noteq> None" by code_simp
  then show "exec run_gate (init 2) = Some at_gate" by (simp add: at_gate_def)
  have "exec (run_gate @ [Closer]) (init 2) \<noteq> None" by code_simp
  then show "exec (run_gate @ [Closer]) (init 2) = Some at_close" by (simp add: at_close_def)
  have "exec (run_gate @ [Closer, Closer]) (init 2) \<noteq> None" by code_simp
  then show "exec (run_gate @ [Closer, Closer]) (init 2) = Some at_kdone"
    by (simp add: at_kdone_def)
qed

text \<open>
  C3. For every pool size \<open>N \<ge> 1\<close>: in every reachable state the generator's log is \<open>m\<close>
  complete iterations \<open>Sent k, Called k\<close> for \<open>k = 1, ..., m\<close> (in \<open>int64\<close> arithmetic),
  followed by what the current iteration has done so far; the values sent are
  \<open>1, 2, 3, ...\<close>; the send of a value precedes the call of the observer with it; the lane
  is closed exactly when the generator has returned. The generator is never stuck by
  itself: at its \<open>select\<close> it moves to the send, or to the return when the context is done;
  its send completes with any worker that is receiving, and hands over \<open>n\<close>; the two
  additions and the increment are enabled; and the generator that has left its loop (by
  the cancellation branch, the only way out) closes the lane with its next action. For
  every \<open>k\<close> there is a run in which the generator sends and counts exactly \<open>1, ..., k\<close>,
  then returns and closes the lane.
\<close>

theorem generator_sequence:
  assumes "exec es (init N) = Some s" and "1 \<le> N"
  shows "(\<exists>m. n s = of_nat (Suc m) \<and> gen_log s = gen_cycles m @ gen_tail (gen s) (n s)) \<and>
         sent_vals (gen_log s) = map of_nat [1 ..< Suc (length (sent_vals (gen_log s)))] \<and>
         (chIn_closed s \<longleftrightarrow> gen s = GDone) \<and>
         (gen s = GSelect \<longrightarrow>
            step Gen s = Some (s\<lparr>gen := (if ctxDone s then GRet else GSend)\<rparr>)) \<and>
         (\<forall>i < N. gen s = GSend \<and> workers s ! i = WRecv \<longrightarrow>
            step (Wrk i) s =
              Some (s\<lparr>workers := (workers s)[i := WSend (n s)], gen := GFn1,
                      gen_log := gen_log s @ [Sent (n s)],
                      wrk_log := log_at i (Got (n s)) (wrk_log s)\<rparr>)) \<and>
         (gen s = GFn1 \<longrightarrow>
            step Gen s = Some (s\<lparr>inputCount := inputCount s + 1, gen := GFn2,
                                 gen_log := gen_log s @ [Called (n s)]\<rparr>)) \<and>
         (gen s = GFn2 \<longrightarrow>
            step Gen s = Some (s\<lparr>inputSum := inputSum s + n s, gen := GInc\<rparr>)) \<and>
         (gen s = GInc \<longrightarrow> step Gen s = Some (s\<lparr>n := n s + 1, gen := GSelect\<rparr>)) \<and>
         (gen s = GRet \<longrightarrow>
            step Gen s = Some (s\<lparr>chIn_closed := True, gen := GDone,
                                 gen_log := gen_log s @ [ClosedIn]\<rparr>)) \<and>
         (\<exists>t. exec (complete_run N k) (init N) = Some t \<and> gen t = GDone \<and> chIn_closed t \<and>
              gen_log t = gen_cycles k @ [ClosedIn] \<and>
              sent_vals (gen_log t) = map of_nat [1 ..< Suc k] \<and>
              called_vals (gen_log t) = map of_nat [1 ..< Suc k])"
proof -
  from gen_shape_exec [OF assms(1)] obtain m where m: "gen_shape s m" ..
  from safe_balance_exec [OF assms(1)] have safe: "safe s" ..
  then have ok: "chIn_closed s \<longleftrightarrow> gen s = GDone" and np: "\<not> panicked s"
    by (simp_all add: safe_def gen_ok_def)
  from safe NumOut_exec [OF assms(1)] have len: "length (workers s) = N"
    by (simp add: safe_def wf_def)
  have run: "mainpc s = MWait" if "gen s \<noteq> GDone"
    using that still_running [OF assms] by simp
  have a: "\<exists>m. n s = of_nat (Suc m) \<and> gen_log s = gen_cycles m @ gen_tail (gen s) (n s)"
    using m unfolding gen_shape_def by blast
  have sel: "step Gen s = Some (s\<lparr>gen := (if ctxDone s then GRet else GSend)\<rparr>)"
    if "gen s = GSelect"
    using that np run by (simp add: step_def Generator_step_def)
  have snd: "step (Wrk i) s =
      Some (s\<lparr>workers := (workers s)[i := WSend (n s)], gen := GFn1,
              gen_log := gen_log s @ [Sent (n s)],
              wrk_log := log_at i (Got (n s)) (wrk_log s)\<rparr>)"
    if "i < N" and "gen s = GSend" and "workers s ! i = WRecv" for i
    using that np run ok len by (simp add: step_def Worker_step_def)
  have fn1: "step Gen s = Some (s\<lparr>inputCount := inputCount s + 1, gen := GFn2,
                                  gen_log := gen_log s @ [Called (n s)]\<rparr>)"
    if "gen s = GFn1"
    using that np run by (simp add: step_def Generator_step_def)
  have fn2: "step Gen s = Some (s\<lparr>inputSum := inputSum s + n s, gen := GInc\<rparr>)"
    if "gen s = GFn2"
    using that np run by (simp add: step_def Generator_step_def)
  have inc: "step Gen s = Some (s\<lparr>n := n s + 1, gen := GSelect\<rparr>)"
    if "gen s = GInc"
    using that np run by (simp add: step_def Generator_step_def)
  have ret: "step Gen s = Some (s\<lparr>chIn_closed := True, gen := GDone,
                                  gen_log := gen_log s @ [ClosedIn]\<rparr>)"
    if "gen s = GRet"
    using that np run ok by (simp add: step_def Generator_step_def)
  from complete_run_trace [OF assms(2), of k] obtain t
    where t: "exec (complete_run N k) (init N) = Some t" "gen t = GDone" "chIn_closed t"
      "gen_log t = gen_cycles k @ [ClosedIn]" by blast
  then have "sent_vals (gen_log t) = map of_nat [1 ..< Suc k]"
    and "called_vals (gen_log t) = map of_nat [1 ..< Suc k]"
    by (simp_all add: sent_vals_append sent_vals_cycles called_vals_append called_vals_cycles)
  with t have ex: "\<exists>t. exec (complete_run N k) (init N) = Some t \<and> gen t = GDone \<and>
      chIn_closed t \<and> gen_log t = gen_cycles k @ [ClosedIn] \<and>
      sent_vals (gen_log t) = map of_nat [1 ..< Suc k] \<and>
      called_vals (gen_log t) = map of_nat [1 ..< Suc k]"
    by blast
  from a gen_shape_sent [OF m] ok sel snd fn1 fn2 inc ret ex show ?thesis by blast
qed

theorem generator_sequence_witness:
  "exec [] (init 2) = Some (init 2) \<and> (1::nat) \<le> 2 \<and> gen (init 2) = GSelect \<and>
   step Gen (init 2) = Some ((init 2)\<lparr>gen := GSend\<rparr>) \<and>
   exec run_late (init 2) = Some at_late \<and> gen at_late = GSend \<and> workers at_late ! 1 = WRecv \<and>
   step (Wrk 1) at_late =
     Some (at_late\<lparr>workers := (workers at_late)[1 := WSend 1], gen := GFn1,
                    gen_log := [Sent 1], wrk_log := log_at 1 (Got 1) (wrk_log at_late)\<rparr>) \<and>
   exec run_fn (init 2) = Some at_fn \<and> gen at_fn = GFn1 \<and>
   step Gen at_fn = Some (at_fn\<lparr>inputCount := 2, gen := GFn2,
                                gen_log := [Sent 1, Called 1, Sent 2, Called 2]\<rparr>) \<and>
   gen at_fn2 = GFn2 \<and> step Gen at_fn2 = Some (at_fn2\<lparr>inputSum := 3, gen := GInc\<rparr>) \<and>
   gen at_inc = GInc \<and> step Gen at_inc = Some (at_inc\<lparr>n := 3, gen := GSelect\<rparr>) \<and>
   exec run_ret (init 2) = Some at_ret \<and> gen at_ret = GRet \<and> \<not> chIn_closed at_ret \<and>
   step Gen at_ret = Some (at_ret\<lparr>chIn_closed := True, gen := GDone,
                                  gen_log := [Sent 1, Called 1, ClosedIn]\<rparr>) \<and>
   sent_vals (gen_log at_ret) = [1] \<and>
   (\<exists>t. exec (complete_run 2 3) (init 2) = Some t \<and> gen t = GDone \<and> chIn_closed t \<and>
        gen_log t = [Sent 1, Called 1, Sent 2, Called 2, Sent 3, Called 3, ClosedIn] \<and>
        sent_vals (gen_log t) = [1, 2, 3] \<and> called_vals (gen_log t) = [1, 2, 3])"
proof -
  have i: "gen (init 2) = GSelect" "\<not> ctxDone (init 2)" by (simp_all add: init_def)
  have l: "gen at_late = GSend" "workers at_late ! 1 = WRecv" "n at_late = 1"
    "gen_log at_late = []"
    unfolding at_late_def by code_simp+
  have f: "gen at_fn = GFn1" "n at_fn = 2" "inputCount at_fn = 1"
    "gen_log at_fn = [Sent 1, Called 1, Sent 2]"
    unfolding at_fn_def by code_simp+
  have f2: "gen at_fn2 = GFn2" "n at_fn2 = 2" "inputSum at_fn2 = 1"
    unfolding at_fn2_def by code_simp+
  have c: "gen at_inc = GInc" "n at_inc = 2"
    unfolding at_inc_def by code_simp+
  have r: "gen at_ret = GRet" "gen_log at_ret = [Sent 1, Called 1]"
    unfolding at_ret_def by code_simp+
  have g: "gen_cycles 3 = [Sent 1, Called 1, Sent 2, Called 2, Sent 3, Called 3]"
    by (simp add: numeral_3_eq_3)
  have u: "map of_nat [1 ..< Suc 3] = [1, 2, 3 :: int64]"
    by (simp add: upt_rec)
  from generator_sequence [OF sample_exec(1), of 0] i
  have 1: "step Gen (init 2) = Some ((init 2)\<lparr>gen := GSend\<rparr>)" by simp
  from generator_sequence [OF run_late_exec, of 0] l
  have 2: "step (Wrk 1) at_late =
     Some (at_late\<lparr>workers := (workers at_late)[1 := WSend 1], gen := GFn1,
                    gen_log := [Sent 1], wrk_log := log_at 1 (Got 1) (wrk_log at_late)\<rparr>)"
    by simp
  from generator_sequence [OF run_fn_exec, of 0] f
  have 3: "step Gen at_fn = Some (at_fn\<lparr>inputCount := 2, gen := GFn2,
                                gen_log := [Sent 1, Called 1, Sent 2, Called 2]\<rparr>)"
    by simp
  from generator_sequence [OF sample_exec(2), of 0] f2
  have 4: "step Gen at_fn2 = Some (at_fn2\<lparr>inputSum := 3, gen := GInc\<rparr>)" by simp
  from generator_sequence [OF sample_exec(3), of 0] c
  have 5: "step Gen at_inc = Some (at_inc\<lparr>n := 3, gen := GSelect\<rparr>)" by simp
  from generator_sequence [OF run_ret_exec, of 0] r
  have 6: "step Gen at_ret = Some (at_ret\<lparr>chIn_closed := True, gen := GDone,
                                  gen_log := [Sent 1, Called 1, ClosedIn]\<rparr>)"
    and 7: "\<not> chIn_closed at_ret" and 8: "sent_vals (gen_log at_ret) = [1]"
    by simp_all
  from generator_sequence [OF sample_exec(1), of 3] g u
  have 9: "\<exists>t. exec (complete_run 2 3) (init 2) = Some t \<and> gen t = GDone \<and> chIn_closed t \<and>
        gen_log t = [Sent 1, Called 1, Sent 2, Called 2, Sent 3, Called 3, ClosedIn] \<and>
        sent_vals (gen_log t) = [1, 2, 3] \<and> called_vals (gen_log t) = [1, 2, 3]"
    by simp
  from 1 2 3 4 5 6 7 8 9 i l f f2 c r sample_exec(1) run_late_exec run_fn_exec run_ret_exec
  show ?thesis by simp
qed


subsection \<open>The workers relay and close\<close>

text \<open>
  C5. In every reachable state the log of worker \<open>i\<close> is a sequence of complete rounds
  \<open>Got v, Put v, Slept\<close> (the value received, the same value forwarded, the pause),
  followed by what the current round has done so far, or by the close after the last
  round; there may be no round at all. The output lane is closed exactly when the worker
  has returned. The worker is never stuck by itself: receiving, it takes the value the
  generator is sending, leaves its loop when the input lane is closed, and waits
  otherwise; its send waits for collector \<open>i\<close> and hands over to it the value received;
  the pause ends and the worker receives again; and the worker that has left its loop
  closes its lane with its next action. For every \<open>k\<close> there is a run in which worker 0
  relays exactly \<open>1, ..., k\<close> and closes its lane, and every other worker closes its lane
  without having received a value.
\<close>

theorem worker_relay:
  assumes "exec es (init N) = Some s" and "i < N"
  shows "(\<exists>vs. wrk_shape (wrk_log s ! i) (workers s ! i) vs) \<and>
         (outs_closed s ! i \<longleftrightarrow> workers s ! i = WDone) \<and>
         (workers s ! i = WRecv \<and> gen s = GSend \<longrightarrow>
            step (Wrk i) s =
              Some (s\<lparr>workers := (workers s)[i := WSend (n s)], gen := GFn1,
                      gen_log := gen_log s @ [Sent (n s)],
                      wrk_log := log_at i (Got (n s)) (wrk_log s)\<rparr>)) \<and>
         (workers s ! i = WRecv \<and> chIn_closed s \<longrightarrow>
            step (Wrk i) s = Some (s\<lparr>workers := (workers s)[i := WRet]\<rparr>)) \<and>
         (workers s ! i = WRecv \<and> gen s \<noteq> GSend \<and> \<not> chIn_closed s \<longrightarrow>
            step (Wrk i) s = None) \<and>
         (\<forall>v. workers s ! i = WSend v \<longrightarrow> step (Wrk i) s = None) \<and>
         (\<forall>v. workers s ! i = WSend v \<and> collectors s ! i = CRecv \<longrightarrow>
            step (Col i) s =
              Some (s\<lparr>collectors := (collectors s)[i := CLock v],
                      workers := (workers s)[i := WSleep],
                      wrk_log := log_at i (Put v) (wrk_log s)\<rparr>)) \<and>
         (workers s ! i = WSleep \<longrightarrow>
            step (Wrk i) s =
              Some (s\<lparr>workers := (workers s)[i := WRecv],
                      wrk_log := log_at i Slept (wrk_log s)\<rparr>)) \<and>
         (workers s ! i = WRet \<longrightarrow>
            step (Wrk i) s =
              Some (s\<lparr>outs_closed := (outs_closed s)[i := True],
                      workers := (workers s)[i := WDone],
                      wrk_log := log_at i ClosedOut (wrk_log s)\<rparr>)) \<and>
         (\<exists>t. exec (complete_run N k) (init N) = Some t \<and>
              (\<forall>j < N. workers t ! j = WDone \<and> outs_closed t ! j \<and>
                 wrk_log t ! j = (if j = 0 then relay (map of_nat [1 ..< Suc k]) else [])
                                 @ [ClosedOut]))"
proof -
  note l = safe_lane [OF assms]
  from safe_balance_exec [OF assms(1)] have ok: "chIn_closed s \<longleftrightarrow> gen s = GDone"
    by (simp add: safe_def gen_ok_def)
  have a: "\<exists>vs. wrk_shape (wrk_log s ! i) (workers s ! i) vs"
    using wlog_ok_exec [OF assms] by (simp add: wlog_ok_def)
  have b: "outs_closed s ! i \<longleftrightarrow> workers s ! i = WDone"
    using l(1) by (simp add: lane_ok_def)
  have run: "mainpc s = MWait" if "workers s ! i \<noteq> WDone"
  proof -
    from l(2) have "workers s ! i \<in> set (workers s)" by simp
    with that have "\<exists>w \<in> set (workers s). w \<noteq> WDone" by blast
    with still_running [OF assms(1)] assms(2) show ?thesis by simp
  qed
  have r1: "step (Wrk i) s =
      Some (s\<lparr>workers := (workers s)[i := WSend (n s)], gen := GFn1,
              gen_log := gen_log s @ [Sent (n s)],
              wrk_log := log_at i (Got (n s)) (wrk_log s)\<rparr>)"
    if "workers s ! i = WRecv" and "gen s = GSend"
    using that l ok run by (simp add: step_def Worker_step_def)
  have r2: "step (Wrk i) s = Some (s\<lparr>workers := (workers s)[i := WRet]\<rparr>)"
    if "workers s ! i = WRecv" and "chIn_closed s"
    using that l run by (simp add: step_def Worker_step_def)
  have r3: "step (Wrk i) s = None"
    if "workers s ! i = WRecv" and "gen s \<noteq> GSend" and "\<not> chIn_closed s"
    using that l by (simp add: step_def Worker_step_def)
  have s1: "step (Wrk i) s = None" if "workers s ! i = WSend v" for v
    using that l b by (simp add: step_def Worker_step_def)
  have c: "step (Col i) s =
      Some (s\<lparr>collectors := (collectors s)[i := CLock v],
              workers := (workers s)[i := WSleep],
              wrk_log := log_at i (Put v) (wrk_log s)\<rparr>)"
    if "workers s ! i = WSend v" and "collectors s ! i = CRecv" for v
    using that l b run by (simp add: step_def Collector_step_def)
  have d: "step (Wrk i) s =
      Some (s\<lparr>workers := (workers s)[i := WRecv], wrk_log := log_at i Slept (wrk_log s)\<rparr>)"
    if "workers s ! i = WSleep"
    using that l b run by (simp add: step_def Worker_step_def)
  have e: "step (Wrk i) s =
      Some (s\<lparr>outs_closed := (outs_closed s)[i := True],
              workers := (workers s)[i := WDone],
              wrk_log := log_at i ClosedOut (wrk_log s)\<rparr>)"
    if "workers s ! i = WRet"
    using that l b run by (simp add: step_def Worker_step_def)
  from assms(2) have "1 \<le> N" by simp
  from complete_run_trace [OF this, of k]
  have ex: "\<exists>t. exec (complete_run N k) (init N) = Some t \<and>
      (\<forall>j < N. workers t ! j = WDone \<and> outs_closed t ! j \<and>
         wrk_log t ! j = (if j = 0 then relay (map of_nat [1 ..< Suc k]) else [])
                         @ [ClosedOut])"
    by blast
  from a b r1 r2 r3 s1 c d e ex show ?thesis by blast
qed

theorem worker_relay_witness:
  "exec run_late (init 2) = Some at_late \<and> (1::nat) < 2 \<and>
   workers at_late ! 1 = WRecv \<and> gen at_late = GSend \<and>
   step (Wrk 1) at_late =
     Some (at_late\<lparr>workers := (workers at_late)[1 := WSend 1], gen := GFn1,
                    gen_log := [Sent 1], wrk_log := log_at 1 (Got 1) (wrk_log at_late)\<rparr>) \<and>
   workers at_closed ! 1 = WRecv \<and> chIn_closed at_closed \<and> wrk_log at_closed ! 1 = [] \<and>
   step (Wrk 1) at_closed = Some (at_closed\<lparr>workers := (workers at_closed)[1 := WRet]\<rparr>) \<and>
   workers (init 2) ! 0 = WRecv \<and> step (Wrk 0) (init 2) = None \<and>
   exec run_fn (init 2) = Some at_fn \<and> workers at_fn ! 0 = WSend 2 \<and>
   collectors at_fn ! 0 = CRecv \<and> step (Wrk 0) at_fn = None \<and>
   step (Col 0) at_fn =
     Some (at_fn\<lparr>collectors := (collectors at_fn)[0 := CLock 2],
                  workers := (workers at_fn)[0 := WSleep],
                  wrk_log := log_at 0 (Put 2) (wrk_log at_fn)\<rparr>) \<and>
   workers at_sleep ! 0 = WSleep \<and> wrk_log at_sleep ! 0 = [Got 2, Put 2] \<and>
   step (Wrk 0) at_sleep =
     Some (at_sleep\<lparr>workers := (workers at_sleep)[0 := WRecv],
                     wrk_log := log_at 0 Slept (wrk_log at_sleep)\<rparr>) \<and>
   exec run_wret (init 2) = Some at_wret \<and> workers at_wret ! 0 = WRet \<and>
   wrk_log at_wret ! 0 = [Got 1, Put 1, Slept] \<and> \<not> outs_closed at_wret ! 0 \<and>
   step (Wrk 0) at_wret =
     Some (at_wret\<lparr>outs_closed := (outs_closed at_wret)[0 := True],
                    workers := (workers at_wret)[0 := WDone],
                    wrk_log := log_at 0 ClosedOut (wrk_log at_wret)\<rparr>) \<and>
   (\<exists>t. exec (complete_run 2 3) (init 2) = Some t \<and>
        workers t = [WDone, WDone] \<and> outs_closed t = [True, True] \<and>
        wrk_log t = [[Got 1, Put 1, Slept, Got 2, Put 2, Slept, Got 3, Put 3, Slept, ClosedOut],
                     [ClosedOut]])"
proof -
  have i: "workers (init 2) ! 0 = WRecv" "gen (init 2) \<noteq> GSend" "\<not> chIn_closed (init 2)"
    by (simp_all add: init_def)
  have l: "workers at_late ! 1 = WRecv" "gen at_late = GSend" "n at_late = 1"
    "gen_log at_late = []"
    unfolding at_late_def by code_simp+
  have cl: "workers at_closed ! 1 = WRecv" "chIn_closed at_closed" "wrk_log at_closed ! 1 = []"
    unfolding at_closed_def by code_simp+
  have f: "workers at_fn ! 0 = WSend 2" "collectors at_fn ! 0 = CRecv"
    unfolding at_fn_def by code_simp+
  have sl: "workers at_sleep ! 0 = WSleep" "wrk_log at_sleep ! 0 = [Got 2, Put 2]"
    unfolding at_sleep_def by code_simp+
  have w: "workers at_wret ! 0 = WRet" "wrk_log at_wret ! 0 = [Got 1, Put 1, Slept]"
    unfolding at_wret_def by code_simp+
  from worker_relay [OF run_late_exec, of 1 0] l
  have 1: "step (Wrk 1) at_late =
     Some (at_late\<lparr>workers := (workers at_late)[1 := WSend 1], gen := GFn1,
                    gen_log := [Sent 1], wrk_log := log_at 1 (Got 1) (wrk_log at_late)\<rparr>)"
    by simp
  from worker_relay [OF sample_exec(6), of 1 0] cl
  have 2: "step (Wrk 1) at_closed = Some (at_closed\<lparr>workers := (workers at_closed)[1 := WRet]\<rparr>)"
    by simp
  from worker_relay [OF sample_exec(1), of 0 0] i
  have 3: "step (Wrk 0) (init 2) = None" by simp
  from worker_relay [OF run_fn_exec, of 0 0] f
  have 4: "step (Wrk 0) at_fn = None"
    and 5: "step (Col 0) at_fn =
     Some (at_fn\<lparr>collectors := (collectors at_fn)[0 := CLock 2],
                  workers := (workers at_fn)[0 := WSleep],
                  wrk_log := log_at 0 (Put 2) (wrk_log at_fn)\<rparr>)"
    by simp_all
  from worker_relay [OF sample_exec(5), of 0 0] sl
  have 6: "step (Wrk 0) at_sleep =
     Some (at_sleep\<lparr>workers := (workers at_sleep)[0 := WRecv],
                     wrk_log := log_at 0 Slept (wrk_log at_sleep)\<rparr>)"
    by simp
  from worker_relay [OF run_wret_exec, of 0 0] w
  have 7: "step (Wrk 0) at_wret =
     Some (at_wret\<lparr>outs_closed := (outs_closed at_wret)[0 := True],
                    workers := (workers at_wret)[0 := WDone],
                    wrk_log := log_at 0 ClosedOut (wrk_log at_wret)\<rparr>)"
    and 8: "\<not> outs_closed at_wret ! 0"
    by simp_all
  from worker_relay [OF sample_exec(1), of 0 3] obtain t
    where t: "exec (complete_run 2 3) (init 2) = Some t"
      "\<forall>j < 2. workers t ! j = WDone \<and> outs_closed t ! j \<and>
         wrk_log t ! j = (if j = 0 then relay (map of_nat [1 ..< Suc 3]) else []) @ [ClosedOut]"
    by auto
  from safe_balance_exec [OF t(1)] NumOut_exec [OF t(1)]
  have len: "length (workers t) = 2" "length (outs_closed t) = 2" "length (wrk_log t) = 2"
    by (simp_all add: safe_def wf_def)
  have two: "xs = [xs ! 0, xs ! 1]" if "length xs = 2" for xs :: "'a list"
    using that by (cases xs; cases "tl xs") auto
  from t(2) have "workers t ! 0 = WDone" "workers t ! 1 = WDone" "outs_closed t ! 0"
    "outs_closed t ! 1"
    "wrk_log t ! 0 = [Got 1, Put 1, Slept, Got 2, Put 2, Slept, Got 3, Put 3, Slept, ClosedOut]"
    "wrk_log t ! 1 = [ClosedOut]"
    by (simp_all add: relay_def upt_rec)
  with two [OF len(1)] two [OF len(2)] two [OF len(3)]
  have "workers t = [WDone, WDone]" "outs_closed t = [True, True]"
    "wrk_log t = [[Got 1, Put 1, Slept, Got 2, Put 2, Slept, Got 3, Put 3, Slept, ClosedOut],
                  [ClosedOut]]"
    by simp_all
  with t(1) have 9: "\<exists>t. exec (complete_run 2 3) (init 2) = Some t \<and>
        workers t = [WDone, WDone] \<and> outs_closed t = [True, True] \<and>
        wrk_log t = [[Got 1, Put 1, Slept, Got 2, Put 2, Slept, Got 3, Put 3, Slept, ClosedOut],
                     [ClosedOut]]"
    by blast
  from 1 2 3 4 5 6 7 8 9 i l cl f sl w run_late_exec run_fn_exec run_wret_exec
  show ?thesis by simp
qed


subsection \<open>The merged lane is closed once\<close>

lemma closer_running:
  assumes "safe s" and "closer s \<noteq> KDone"
  shows "mainpc s = MWait"
proof (rule ccontr)
  assume m: "mainpc s \<noteq> MWait"
  from assms(1) have t: "tail_ok s" by (simp add: safe_def)
  from t m have "sink s = SDone" unfolding tail_ok_def by blast
  with t have "chOut_closed s" unfolding tail_ok_def by auto
  with t have "closer s = KDone" unfolding tail_ok_def by blast
  with assms(2) show False by simp
qed

text \<open>
  C6. In every reachable state no goroutine has panicked (so no value was sent on the
  closed merged lane and the lane was not closed twice), \<open>close(chOut)\<close> has been executed
  once if the lane is closed and never otherwise, and once the closer is past
  \<open>wg.Wait()\<close> every collector has terminated and every worker's lane is closed. The
  barrier counts the collectors that have not terminated: a collector whose lane is
  closed leaves its loop, its \<open>wg.Done()\<close> is its next action and lowers the barrier by
  one. While any collector has not terminated the closer cannot move; as soon as all of
  them have terminated \<open>wg.Wait()\<close> returns, the next action of the closer is
  \<open>close(chOut)\<close>, which closes the lane and is counted, and after it the closer has no
  further action. At the join the lane has been closed once, and for every pool size
  \<open>N \<ge> 1\<close> and every \<open>k\<close> there is a run that reaches the join with the lane closed once.
\<close>

theorem merged_lane_closed_once:
  assumes "exec es (init N) = Some s"
  shows "\<not> panicked s \<and> chOut_closes s = (if chOut_closed s then 1 else 0) \<and>
         (chOut_closed s \<longleftrightarrow> closer s = KDone) \<and>
         (closer s \<noteq> KWait \<longrightarrow>
            (\<forall>i < N. collectors s ! i = CDone \<and> workers s ! i = WDone \<and> outs_closed s ! i)) \<and>
         ((\<exists>i < N. collectors s ! i \<noteq> CDone) \<longrightarrow> step Closer s = None) \<and>
         (joined s \<longrightarrow> chOut_closes s = 1) \<and>
         wg s = sum_list (map live (collectors s)) \<and>
         (\<forall>i < N. collectors s ! i = CRecv \<and> outs_closed s ! i \<longrightarrow>
            step (Col i) s = Some (s\<lparr>collectors := (collectors s)[i := CRet]\<rparr>)) \<and>
         (\<forall>i < N. collectors s ! i = CRet \<longrightarrow>
            step (Col i) s =
              Some (s\<lparr>wg := wg s - 1, collectors := (collectors s)[i := CDone]\<rparr>)) \<and>
         (closer s = KWait \<and> (\<forall>i < N. collectors s ! i = CDone) \<longrightarrow>
            step Closer s = Some (s\<lparr>closer := KClose\<rparr>)) \<and>
         (closer s = KClose \<longrightarrow>
            step Closer s =
              Some (s\<lparr>chOut_closed := True, closer := KDone,
                      chOut_closes := chOut_closes s + 1\<rparr>)) \<and>
         (closer s = KDone \<longrightarrow> step Closer s = None) \<and>
         (1 \<le> N \<longrightarrow>
            (\<exists>t. exec (complete_run N k) (init N) = Some t \<and> joined t \<and> closer t = KDone \<and>
                 chOut_closed t \<and> chOut_closes t = 1))"
proof -
  from safe_balance_exec [OF assms] have safe: "safe s" ..
  have N: "NumOut s = N" by (rule NumOut_exec [OF assms])
  from safe have t: "tail_ok s" and np: "\<not> panicked s"
    and len: "length (collectors s) = NumOut s"
    by (simp_all add: safe_def wf_def)
  from t have cnt: "wg s = sum_list (map live (collectors s))"
    and once: "chOut_closes s = (if chOut_closed s then 1 else 0)"
    and cl: "chOut_closed s \<longleftrightarrow> closer s = KDone"
    by (simp_all add: tail_ok_def)
  have gate: "collectors s ! i = CDone \<and> workers s ! i = WDone \<and> outs_closed s ! i"
    if "closer s \<noteq> KWait" and "i < N" for i
  proof -
    from t that(1) have "\<forall>c \<in> set (collectors s). live c = 0"
      by (auto simp: tail_ok_def)
    from live_zero_nth [OF this, of i] that(2) len N
    have "collectors s ! i = CDone" by (cases "collectors s ! i") simp_all
    with safe_lane(1) [OF assms that(2)] show ?thesis by (simp add: lane_ok_def)
  qed
  have busy: "0 < wg s \<and> closer s = KWait \<and> mainpc s = MWait"
    if "i < N" and "collectors s ! i \<noteq> CDone" for i
  proof -
    from live_pos [of i "collectors s"] that len N cnt have w: "0 < wg s" by simp
    with t have k: "closer s = KWait" by (auto simp: tail_ok_def)
    with closer_running [OF safe] w show ?thesis by simp
  qed
  have blocked: "step Closer s = None" if "i < N" and "collectors s ! i \<noteq> CDone" for i
    using busy [OF that] by (simp add: step_def Closer_step_def)
  have j: "chOut_closes s = 1" if "joined s"
    using quiescent [OF safe] that t by (simp add: joined_def tail_ok_def)
  have leave: "step (Col i) s = Some (s\<lparr>collectors := (collectors s)[i := CRet]\<rparr>)"
    if "i < N" and "collectors s ! i = CRecv" and "outs_closed s ! i" for i
  proof -
    from that(2) have "collectors s ! i \<noteq> CDone" by simp
    from busy [OF that(1) this] safe_lane [OF assms that(1)] that
    show ?thesis by (simp add: step_def Collector_step_def)
  qed
  have done_c: "step (Col i) s =
      Some (s\<lparr>wg := wg s - 1, collectors := (collectors s)[i := CDone]\<rparr>)"
    if "i < N" and "collectors s ! i = CRet" for i
  proof -
    from that(2) have "collectors s ! i \<noteq> CDone" by simp
    from busy [OF that(1) this] safe_lane [OF assms that(1)] that
    show ?thesis by (simp add: step_def Collector_step_def)
  qed
  have wait: "step Closer s = Some (s\<lparr>closer := KClose\<rparr>)"
    if "closer s = KWait" and "\<forall>i < N. collectors s ! i = CDone"
  proof -
    have "\<forall>c \<in> set (collectors s). live c = 0"
    proof
      fix c assume "c \<in> set (collectors s)"
      then obtain i where "i < length (collectors s)" "collectors s ! i = c"
        by (auto simp: in_set_conv_nth)
      with that(2) len N show "live c = 0" by auto
    qed
    from sum_list_map_zero [OF this] cnt have "wg s = 0" by simp
    moreover from that(1) have "closer s \<noteq> KDone" by simp
    from closer_running [OF safe this] have "mainpc s = MWait" .
    ultimately show ?thesis using that(1) np by (simp add: step_def Closer_step_def)
  qed
  have close: "step Closer s =
      Some (s\<lparr>chOut_closed := True, closer := KDone, chOut_closes := chOut_closes s + 1\<rparr>)"
    if "closer s = KClose"
  proof -
    from that have "closer s \<noteq> KDone" by simp
    from closer_running [OF safe this] cl that np
    show ?thesis by (simp add: step_def Closer_step_def)
  qed
  have fin: "step Closer s = None" if "closer s = KDone"
    using that by (simp add: step_def Closer_step_def)
  have ex: "\<exists>t. exec (complete_run N k) (init N) = Some t \<and> joined t \<and> closer t = KDone \<and>
      chOut_closed t \<and> chOut_closes t = 1" if "1 \<le> N"
  proof -
    from complete_run_trace [OF that, of k] obtain t
      where r: "exec (complete_run N k) (init N) = Some t" "joined t" "chOut_closed t"
        "chOut_closes t = 1" by blast
    from safe_balance_exec [OF r(1)] r(3) have "closer t = KDone"
      by (simp add: safe_def tail_ok_def)
    with r show ?thesis by blast
  qed
  from np once cl gate blocked j cnt leave done_c wait close fin ex show ?thesis by blast
qed

theorem merged_lane_closed_once_witness:
  "exec run_half (init 2) = Some at_half \<and> (1::nat) < 2 \<and>
   collectors at_half = [CDone, CRecv] \<and> closer at_half = KWait \<and> wg at_half = 1 \<and>
   step Closer at_half = None \<and> \<not> chOut_closed at_half \<and> chOut_closes at_half = 0 \<and>
   collectors at_wdone ! 0 = CRecv \<and> outs_closed at_wdone ! 0 \<and>
   step (Col 0) at_wdone = Some (at_wdone\<lparr>collectors := (collectors at_wdone)[0 := CRet]\<rparr>) \<and>
   collectors at_cret ! 0 = CRet \<and> wg at_cret = 2 \<and>
   step (Col 0) at_cret =
     Some (at_cret\<lparr>wg := 1, collectors := (collectors at_cret)[0 := CDone]\<rparr>) \<and>
   exec run_gate (init 2) = Some at_gate \<and> collectors at_gate = [CDone, CDone] \<and>
   closer at_gate = KWait \<and> step Closer at_gate = Some (at_gate\<lparr>closer := KClose\<rparr>) \<and>
   closer at_close = KClose \<and> chOut_closes at_close = 0 \<and>
   step Closer at_close =
     Some (at_close\<lparr>chOut_closed := True, closer := KDone, chOut_closes := 1\<rparr>) \<and>
   closer at_kdone = KDone \<and> chOut_closed at_kdone \<and> chOut_closes at_kdone = 1 \<and>
   step Closer at_kdone = None \<and>
   exec run3 (init 2) = Some final3 \<and> joined final3 \<and> closer final3 \<noteq> KWait \<and>
   chOut_closes final3 = 1 \<and> collectors final3 = [CDone, CDone] \<and> \<not> panicked final3 \<and>
   (\<exists>t. exec (complete_run 2 3) (init 2) = Some t \<and> joined t \<and> closer t = KDone \<and>
        chOut_closed t \<and> chOut_closes t = 1)"
proof -
  have a: "collectors at_half = [CDone, CRecv]" "closer at_half = KWait" "\<not> chOut_closed at_half"
    unfolding at_half_def by code_simp+
  have b: "closer final3 \<noteq> KWait" "collectors final3 = [CDone, CDone]"
    unfolding final3_def by code_simp+
  have c: "\<exists>i<2. collectors at_half ! i \<noteq> CDone"
    using a(1) by (intro exI [of _ 1]) simp
  have d: "collectors at_wdone ! 0 = CRecv" "outs_closed at_wdone ! 0"
    unfolding at_wdone_def by code_simp+
  have e: "collectors at_cret ! 0 = CRet" "wg at_cret = 2"
    unfolding at_cret_def by code_simp+
  have g: "collectors at_gate = [CDone, CDone]" "closer at_gate = KWait"
    unfolding at_gate_def by code_simp+
  have g': "\<forall>i<2. collectors at_gate ! i = CDone"
    using g(1) by (simp add: less_Suc_eq numeral_2_eq_2)
  have h: "closer at_close = KClose" "chOut_closes at_close = 0"
    unfolding at_close_def by code_simp+
  have k: "closer at_kdone = KDone"
    unfolding at_kdone_def by code_simp
  note m = merged_lane_closed_once
  from m [OF run_half_exec, of 0] a c
  have 1: "step Closer at_half = None" "chOut_closes at_half = 0" "wg at_half = 1"
    by simp_all
  from m [OF sample_exec(8), of 0] d
  have 2: "step (Col 0) at_wdone =
      Some (at_wdone\<lparr>collectors := (collectors at_wdone)[0 := CRet]\<rparr>)"
    by simp
  from m [OF sample_exec(7), of 0] e
  have 3: "step (Col 0) at_cret =
      Some (at_cret\<lparr>wg := 1, collectors := (collectors at_cret)[0 := CDone]\<rparr>)"
    by simp
  from m [OF sample_exec(9), of 0] g g'
  have 4: "step Closer at_gate = Some (at_gate\<lparr>closer := KClose\<rparr>)"
    by simp
  from m [OF sample_exec(10), of 0] h
  have 5: "step Closer at_close =
      Some (at_close\<lparr>chOut_closed := True, closer := KDone, chOut_closes := 1\<rparr>)"
    by simp
  from m [OF sample_exec(11), of 0] k
  have 6: "step Closer at_kdone = None" "chOut_closed at_kdone" "chOut_closes at_kdone = 1"
    by simp_all
  from m [OF run3_exec, of 0] run3_joined
  have 7: "chOut_closes final3 = 1" "\<not> panicked final3"
    by blast+
  from m [OF sample_exec(1), of 3]
  have 8: "\<exists>t. exec (complete_run 2 3) (init 2) = Some t \<and> joined t \<and> closer t = KDone \<and>
        chOut_closed t \<and> chOut_closes t = 1"
    by simp
  from 1 2 3 4 5 6 7 8 a b d e g h k run_half_exec run3_exec run3_joined sample_exec(9)
  show ?thesis by simp
qed

text \<open>
  The scenario of the specification: five values through a pool of two. The sink counts
  5 values with sum 15, the lanes count 3 and 2, the report prints the three lines and the
  process ends with status 0.
\<close>

lemma scenario_five_values:
  "map_option (\<lambda>s. (count s, sum_v s, amounts s, mainpc s, stdout s, stderr s))
     (exec run5 (init 2)) =
   Some (5, 15, [3, 2], MExit 0,
         [[Str CountLabel, I64 5, I64 5], [Str SumLabel, I64 15, I64 15],
          [Str LanesLabel, Slice [3, 2]]], [])"
  by code_simp

end
